theory Spec2Isabelle
  imports Main "HOL-Library.Word"
begin

section \<open>The AVL map of src/core/lib/gprpp/map.h\<close>

text \<open>
  The class \<open>grpc_core::Map<Key, T, Compare>\<close> is an AVL tree of heap nodes
  (\<open>struct Entry\<close>) without parent pointers. Every node is owned by exactly one
  pointer (\<open>root_\<close>, or the \<open>left\<close> or \<open>right\<close> member of its parent), so the
  part of the heap a map owns is a tree, and the model keeps it as one: a value of type
  \<open>Entry\<close> stands for an \<open>Entry*\<close> together with everything it owns. Each node
  carries the address it lives at, so that pointer identity (iterators, the write through
  \<open>entry->pair\<close> in \<open>RemoveRecursive\<close>) is still expressible.

  \<^item> \<open>Key\<close> is a linearly ordered type and \<open>Compare\<close> is the default
    \<open>std::less<Key>\<close>, that is \<open><\<close>.
  \<^item> Pointers and \<open>size_t\<close> are 64 bits wide. An address is a \<open>64 word\<close>, and no
    node lives at the null address 0. \<open>size_t size_\<close> is a \<open>64 word\<close>:
    \<open>size_++\<close> and \<open>size_--\<close> wrap around, as they do in the source.
  \<^item> \<open>int32_t height\<close> is an \<open>int\<close>: the tree is balanced in every state the public
    functions produce (claim C1), a balanced tree of height \<open>h\<close> has at least as many
    nodes as the \<open>h\<close>-th Fibonacci number, and there are fewer than \<open>2^64\<close> nodes,
    so a height stays below 100 and the 32-bit arithmetic on heights never wraps.
  \<^item> A member \<open>x_\<close> of the source is written \<open>x'\<close> (a name cannot end with an
    underscore here). Public member functions carry the class name (\<open>Map_find\<close> for
    \<open>Map::find\<close>); private ones keep their names.
  \<^item> Dereferencing a null or dangling pointer is undefined behaviour in the source. The
    private functions are left unspecified there (no equation); the iterator operations and
    \<open>erase\<close> return \<open>None\<close>. Reading through a pointer to a live node of another
    map is defined behaviour, and \<open>erase\<close> models it.
\<close>

subsection \<open>Nodes, iterators and the map object\<close>

type_synonym address = "64 word"

datatype ('k, 'v) Entry =
    nullptr
  | Entry (addr: address) (pair: "'k \<times> 'v")
          (left: "('k, 'v) Entry") (right: "('k, 'v) Entry") (height: int)

text \<open>The value of a pointer, as an iterator stores it: the address, or null.\<close>

fun ptr :: "('k, 'v) Entry \<Rightarrow> address option" where
  "ptr nullptr = None"
| "ptr (Entry a p l r h) = Some a"

text \<open>
  Reading through a stored pointer: the node at address \<open>x\<close> among the nodes owned by a
  root, \<open>nullptr\<close> when no node lives there.
\<close>

fun node_at :: "address \<Rightarrow> ('k, 'v) Entry \<Rightarrow> ('k, 'v) Entry" where
  "node_at x nullptr = nullptr"
| "node_at x (Entry a p l r h) =
     (if a = x then Entry a p l r h
      else (case node_at x l of nullptr \<Rightarrow> node_at x r | Entry b q l2 r2 h2 \<Rightarrow> Entry b q l2 r2 h2))"

text \<open>Writing through a stored pointer: \<open>e->pair = p\<close> for the node at address \<open>x\<close>.\<close>

fun store_pair :: "address \<Rightarrow> 'k \<times> 'v \<Rightarrow> ('k, 'v) Entry \<Rightarrow> ('k, 'v) Entry" where
  "store_pair x p nullptr = nullptr"
| "store_pair x p (Entry a q l r h) =
     (if a = x then Entry a p l r h
      else Entry a q (store_pair x p l) (store_pair x p r) h)"

record iterator =
  curr' :: "address option"
  map' :: address

record ('k, 'v) Map =
  root' :: "('k, 'v) Entry"
  size' :: "64 word"

text \<open>\<open>iterator(GrpcMap* map, Entry* curr)\<close>\<close>

definition iterator_of :: "address \<Rightarrow> ('k, 'v) Entry \<Rightarrow> iterator" where
  "iterator_of mp e = \<lparr>curr' = ptr e, map' = mp\<rparr>"

text \<open>\<open>iterator::operator==\<close> and \<open>operator!=\<close> compare \<open>curr_\<close> only.\<close>

definition iterator_eq :: "iterator \<Rightarrow> iterator \<Rightarrow> bool" where
  "iterator_eq lhs rhs = (curr' lhs = curr' rhs)"

definition iterator_ne :: "iterator \<Rightarrow> iterator \<Rightarrow> bool" where
  "iterator_ne lhs rhs = (curr' lhs \<noteq> curr' rhs)"

text \<open>\<open>Map() = default\<close>: \<open>root_ = nullptr\<close>, \<open>size_ = 0\<close>.\<close>

definition Map_ctor :: "('k, 'v) Map" where
  "Map_ctor = \<lparr>root' = nullptr, size' = 0\<rparr>"

definition Map_size :: "('k, 'v) Map \<Rightarrow> 64 word" where
  "Map_size m = size' m"

definition Map_empty :: "('k, 'v) Map \<Rightarrow> bool" where
  "Map_empty m = (root' m = nullptr)"

subsection \<open>Comparison, heights and rotations\<close>

definition CompareKeys :: "'k::linorder \<Rightarrow> 'k \<Rightarrow> int" where
  "CompareKeys lhs rhs =
     (let left_comparison = lhs < rhs;
          right_comparison = rhs < lhs
      in if \<not> left_comparison \<and> \<not> right_comparison then 0
         else if left_comparison then - 1 else 1)"

text \<open>
  Modelled from the spec: the macro \<open>GPR_MAX\<close> of src/core/lib/gpr/useful.h, which is not
  among the sources. The spec gives \<open>height(node) = 1 + max(height(left), height(right))\<close>
  for the expression \<open>1 + GPR_MAX(EntryHeight(e->left), EntryHeight(e->right))\<close>.
\<close>

definition GPR_MAX :: "int \<Rightarrow> int \<Rightarrow> int" where
  "GPR_MAX a b = (if a > b then a else b)"

fun EntryHeight :: "('k, 'v) Entry \<Rightarrow> int" where
  "EntryHeight nullptr = 0"
| "EntryHeight (Entry a p l r h) = h"

fun GetMinEntry :: "('k, 'v) Entry \<Rightarrow> ('k, 'v) Entry" where
  "GetMinEntry nullptr = nullptr"
| "GetMinEntry (Entry a p l r h) =
     (if l \<noteq> nullptr then GetMinEntry l else Entry a p l r h)"

fun RotateLeft :: "('k, 'v) Entry \<Rightarrow> ('k, 'v) Entry" where
  "RotateLeft (Entry a p l (Entry b q rightLeftChild rr rh) h) =
     (let e = Entry a p l rightLeftChild
                (1 + GPR_MAX (EntryHeight l) (EntryHeight rightLeftChild))
      in Entry b q e rr (1 + GPR_MAX (EntryHeight e) (EntryHeight rr)))"

fun RotateRight :: "('k, 'v) Entry \<Rightarrow> ('k, 'v) Entry" where
  "RotateRight (Entry a p (Entry b q ll leftRightChild lh) r h) =
     (let e = Entry a p leftRightChild r
                (1 + GPR_MAX (EntryHeight leftRightChild) (EntryHeight r))
      in Entry b q ll e (1 + GPR_MAX (EntryHeight ll) (EntryHeight e)))"

fun RebalanceTreeAfterInsertion :: "('k::linorder, 'v) Entry \<Rightarrow> 'k \<Rightarrow> ('k, 'v) Entry" where
  "RebalanceTreeAfterInsertion (Entry a p l r h) k =
     (let h2 = 1 + GPR_MAX (EntryHeight l) (EntryHeight r);
          heightDifference = EntryHeight l - EntryHeight r
      in if heightDifference > 1 \<and> CompareKeys (fst (pair l)) k > 0 then
           RotateRight (Entry a p l r h2)
         else if heightDifference < - 1 \<and> CompareKeys (fst (pair r)) k < 0 then
           RotateLeft (Entry a p l r h2)
         else if heightDifference > 1 \<and> CompareKeys (fst (pair l)) k < 0 then
           RotateRight (Entry a p (RotateLeft l) r h2)
         else if heightDifference < - 1 \<and> CompareKeys (fst (pair r)) k > 0 then
           RotateLeft (Entry a p l (RotateRight r) h2)
         else Entry a p l r h2)"

fun RebalanceTreeAfterDeletion :: "('k, 'v) Entry \<Rightarrow> ('k, 'v) Entry" where
  "RebalanceTreeAfterDeletion (Entry a p l r h) =
     (let h2 = 1 + GPR_MAX (EntryHeight l) (EntryHeight r);
          heightDifference = EntryHeight l - EntryHeight r
      in if heightDifference > 1 then
           (let leftHeightDifference = EntryHeight (left l) - EntryHeight (right l)
            in if leftHeightDifference < 0 then RotateRight (Entry a p (RotateLeft l) r h2)
               else RotateRight (Entry a p l r h2))
         else if heightDifference < - 1 then
           (let rightHeightDifference = EntryHeight (left r) - EntryHeight (right r)
            in if rightHeightDifference > 0 then RotateLeft (Entry a p l (RotateRight r) h2)
               else RotateLeft (Entry a p l r h2))
         else Entry a p l r h2)"

subsection \<open>Lookup and the in-order successor\<close>

text \<open>\<open>Map::end\<close> and \<open>Map::begin\<close>; \<open>this\<close> is the address of the map object.\<close>

definition Map_end :: "address \<Rightarrow> iterator" where
  "Map_end this = \<lparr>curr' = None, map' = this\<rparr>"

definition Map_begin :: "address \<Rightarrow> ('k, 'v) Map \<Rightarrow> iterator" where
  "Map_begin this m = iterator_of this (GetMinEntry (root' m))"

text \<open>The loop of \<open>Map::find\<close>, started at \<open>iter = root_\<close>.\<close>

fun find_loop :: "address \<Rightarrow> ('k::linorder, 'v) Entry \<Rightarrow> 'k \<Rightarrow> iterator" where
  "find_loop this nullptr k = Map_end this"
| "find_loop this (Entry a p l r h) k =
     (let comp = CompareKeys (fst p) k
      in if comp = 0 then iterator_of this (Entry a p l r h)
         else if comp < 0 then find_loop this r k
         else find_loop this l k)"

definition Map_find :: "address \<Rightarrow> ('k::linorder, 'v) Map \<Rightarrow> 'k \<Rightarrow> iterator" where
  "Map_find this m k = find_loop this (root' m) k"

text \<open>
  The loop of \<open>InOrderSuccessor\<close>: \<open>iter\<close> walks down from the root towards the key of
  \<open>e\<close>, and \<open>successor\<close> is the last node at which the walk turned left.
\<close>

fun InOrderSuccessor_loop ::
  "('k::linorder, 'v) Entry \<Rightarrow> 'k \<Rightarrow> ('k, 'v) Entry \<Rightarrow> ('k, 'v) Entry" where
  "InOrderSuccessor_loop nullptr k successor = successor"
| "InOrderSuccessor_loop (Entry a p l r h) k successor =
     (let comp = CompareKeys (fst p) k
      in if comp > 0 then InOrderSuccessor_loop l k (Entry a p l r h)
         else if comp < 0 then InOrderSuccessor_loop r k successor
         else successor)"

text \<open>\<open>InOrderSuccessor(e)\<close> of the map whose \<open>root_\<close> is the first argument.\<close>

fun InOrderSuccessor :: "('k::linorder, 'v) Entry \<Rightarrow> ('k, 'v) Entry \<Rightarrow> ('k, 'v) Entry" where
  "InOrderSuccessor rt (Entry a p l r h) =
     (if r \<noteq> nullptr then GetMinEntry r
      else InOrderSuccessor_loop rt (fst p) nullptr)"

text \<open>
  \<open>iterator::operator*\<close> and \<open>operator++\<close>, on the state of the map \<open>map_\<close> points
  to. \<open>None\<close>: the iterator is the end iterator or points to no node of the map.
\<close>

definition iterator_deref :: "('k, 'v) Map \<Rightarrow> iterator \<Rightarrow> ('k \<times> 'v) option" where
  "iterator_deref m it =
     (case curr' it of
        None \<Rightarrow> None
      | Some a \<Rightarrow> (case node_at a (root' m) of
                    nullptr \<Rightarrow> None
                  | Entry b p l r h \<Rightarrow> Some p))"

definition iterator_incr :: "('k::linorder, 'v) Map \<Rightarrow> iterator \<Rightarrow> iterator option" where
  "iterator_incr m it =
     (case curr' it of
        None \<Rightarrow> None
      | Some a \<Rightarrow> (case node_at a (root' m) of
                    nullptr \<Rightarrow> None
                  | Entry b p l r h \<Rightarrow>
                      Some (it\<lparr>curr' := ptr (InOrderSuccessor (root' m) (Entry b p l r h))\<rparr>)))"

subsection \<open>Insertion\<close>

text \<open>
  \<open>InsertRecursive(root, p)\<close>. \<open>n\<close> is the address \<open>New<Entry>\<close> returns when it is
  called. The key the source passes to \<open>RebalanceTreeAfterInsertion\<close>,
  \<open>ret.first->first\<close>, is the key of the entry that was just built from, or overwritten
  with, \<open>p\<close>: it is \<open>fst p\<close>.
\<close>

fun InsertRecursive ::
  "address \<Rightarrow> address \<Rightarrow> ('k::linorder, 'v) Entry \<Rightarrow> 'k \<times> 'v \<Rightarrow> iterator \<times> ('k, 'v) Entry" where
  "InsertRecursive this n nullptr p =
     (let e = Entry n p nullptr nullptr 1 in (iterator_of this e, e))"
| "InsertRecursive this n (Entry a q l r h) p =
     (let comp = CompareKeys (fst q) (fst p)
      in if comp > 0 then
           (let ret = InsertRecursive this n l p
            in (fst ret, RebalanceTreeAfterInsertion (Entry a q (snd ret) r h) (fst p)))
         else if comp < 0 then
           (let ret = InsertRecursive this n r p
            in (fst ret, RebalanceTreeAfterInsertion (Entry a q l (snd ret) h) (fst p)))
         else (iterator_of this (Entry a p l r h), Entry a p l r h))"

definition Map_emplace ::
  "address \<Rightarrow> address \<Rightarrow> ('k::linorder, 'v) Map \<Rightarrow> 'k \<times> 'v \<Rightarrow> (iterator \<times> bool) \<times> ('k, 'v) Map" where
  "Map_emplace this n m pr =
     (let ret = Map_find this m (fst pr)
      in if iterator_eq ret (Map_end this) then
           (let p = InsertRecursive this n (root' m) pr
            in ((fst p, True), \<lparr>root' = snd p, size' = size' m + 1\<rparr>))
         else ((ret, False), m))"

text \<open>Both overloads of \<open>Map::insert\<close> forward to \<open>emplace\<close>.\<close>

definition Map_insert ::
  "address \<Rightarrow> address \<Rightarrow> ('k::linorder, 'v) Map \<Rightarrow> 'k \<times> 'v \<Rightarrow> (iterator \<times> bool) \<times> ('k, 'v) Map" where
  "Map_insert this n m pr = Map_emplace this n m pr"

text \<open>
  \<open>operator[]\<close>; \<open>T0\<close> is the value-initialised \<open>T()\<close>. The reference the source
  returns is modelled by the value it refers to.
\<close>

definition Map_subscript ::
  "address \<Rightarrow> address \<Rightarrow> 'v \<Rightarrow> ('k::linorder, 'v) Map \<Rightarrow> 'k \<Rightarrow> 'v option \<times> ('k, 'v) Map" where
  "Map_subscript this n T0 m key =
     (let iter = Map_find this m key
      in if iterator_eq iter (Map_end this) then
           (let res = Map_emplace this n m (key, T0)
            in (map_option snd (iterator_deref (snd res) (fst (fst res))), snd res))
         else (map_option snd (iterator_deref m iter), m))"

subsection \<open>Removal\<close>

text \<open>The number of nodes a pointer owns; the recursion of \<open>RemoveRecursive\<close> descends in it.\<close>

fun num_nodes :: "('k, 'v) Entry \<Rightarrow> nat" where
  "num_nodes nullptr = 0"
| "num_nodes (Entry a p l r h) = num_nodes l + 1 + num_nodes r"

lemma num_nodes_store_pair [simp]: "num_nodes (store_pair x p t) = num_nodes t"
  by (induction t) auto

text \<open>
  \<open>RemoveRecursive(root, k)\<close>. The second argument is the tree \<open>root_\<close> owns at the time
  of the call, which \<open>InOrderSuccessor\<close> reads. In the branch for two children,
  \<open>root->pair.swap(entry->pair)\<close> writes the pair of \<open>root\<close> into the node
  \<open>entry\<close> points to, which is a node below \<open>root->right\<close>, and the pair of that node
  into \<open>root\<close>; the recursive call then looks for \<open>entry->pair.first\<close>, which is the
  key \<open>root\<close> had. \<open>Delete(root)\<close> drops the node from the tree. The source passes
  \<open>k\<close> as a reference to the key stored in the node to erase; no call reads it after the
  swap or the \<open>Delete\<close>, so the model passes the key itself.
\<close>

function RemoveRecursive ::
  "address \<Rightarrow> ('k::linorder, 'v) Entry \<Rightarrow> ('k, 'v) Entry \<Rightarrow> 'k \<Rightarrow> iterator \<times> ('k, 'v) Entry" where
  "RemoveRecursive this rt nullptr k = (Map_end this, nullptr)"
| "RemoveRecursive this rt (Entry a q l r h) k =
     (let comp = CompareKeys (fst q) k
      in if comp > 0 then
           (let ret = RemoveRecursive this rt l k
            in (fst ret, RebalanceTreeAfterDeletion (Entry a q (snd ret) r h)))
         else if comp < 0 then
           (let ret = RemoveRecursive this rt r k
            in (fst ret, RebalanceTreeAfterDeletion (Entry a q l (snd ret) h)))
         else
           (let successor = InOrderSuccessor rt (Entry a q l r h)
            in if l = nullptr then (iterator_of this successor, r)
               else if r = nullptr then (iterator_of this successor, l)
               else
                 (let entry = successor;
                      r2 = store_pair (addr entry) q r;
                      rt2 = store_pair (addr entry) q (store_pair a (pair entry) rt);
                      ret = RemoveRecursive this rt2 r2 (fst q)
                  in (iterator_of this (Entry a (pair entry) l (snd ret) h),
                      RebalanceTreeAfterDeletion (Entry a (pair entry) l (snd ret) h)))))"
  by pat_completeness auto
termination
  by (relation "measure (\<lambda>(this, rt, t, k). num_nodes t)") auto

text \<open>
  \<open>Map::erase(iterator)\<close>. The source compares \<open>iter\<close> with \<open>end()\<close>, reads the key
  \<open>iter->first\<close> through the iterator, runs \<open>RemoveRecursive(root_, del_key)\<close> and
  decrements \<open>size_\<close>, whether or not a node was removed. It never looks at \<open>map_\<close>:
  the node \<open>iter\<close> points to is a node of this map, or a live node of another map, and
  then \<open>foreign\<close> is the pair that node holds. \<open>None\<close> as the result: the iterator
  points to no live node at all (\<open>foreign = None\<close>), and the read is undefined.
\<close>

definition Map_erase ::
  "address \<Rightarrow> ('k::linorder, 'v) Map \<Rightarrow> iterator \<Rightarrow> ('k \<times> 'v) option
     \<Rightarrow> (iterator \<times> ('k, 'v) Map) option" where
  "Map_erase this m iter foreign =
     (if iterator_eq iter (Map_end this) then Some (iter, m)
      else (case (case iterator_deref m iter of Some p \<Rightarrow> Some p | None \<Rightarrow> foreign) of
              None \<Rightarrow> None
            | Some del \<Rightarrow>
                (let ret = RemoveRecursive this (root' m) (root' m) (fst del)
                 in Some (fst ret, \<lparr>root' = snd ret, size' = size' m - 1\<rparr>))))"

text \<open>
  \<open>Map::erase(const key_type&)\<close>. The iterator it hands to \<open>erase(iterator)\<close> comes from
  \<open>find\<close> on this map, so it points to a node of this map and nothing outside is read.
\<close>

definition Map_erase_key ::
  "address \<Rightarrow> ('k::linorder, 'v) Map \<Rightarrow> 'k \<Rightarrow> (nat \<times> ('k, 'v) Map) option" where
  "Map_erase_key this m key =
     (let it = Map_find this m key
      in if iterator_eq it (Map_end this) then Some (0, m)
         else (case Map_erase this m it None of
                 None \<Rightarrow> None
               | Some res \<Rightarrow> Some (1, snd res)))"

text \<open>
  \<open>Map::clear\<close>: \<open>while (!empty()) iter = erase(iter)\<close>, from \<open>iter = begin()\<close>.
  Every iterator of the loop comes from \<open>begin\<close> or \<open>erase\<close> on this map.
  \<open>None\<close>: the loop does not end, or \<open>erase\<close> reads through a bad iterator.
\<close>

partial_function (option) clear_loop ::
  "address \<Rightarrow> ('k::linorder, 'v) Map \<Rightarrow> iterator \<Rightarrow> ('k, 'v) Map option" where
  "clear_loop this m iter =
     (if \<not> Map_empty m then
        (case Map_erase this m iter None of
           None \<Rightarrow> None
         | Some res \<Rightarrow> clear_loop this (snd res) (fst res))
      else Some m)"

definition Map_clear :: "address \<Rightarrow> ('k::linorder, 'v) Map \<Rightarrow> ('k, 'v) Map option" where
  "Map_clear this m = clear_loop this m (Map_begin this m)"

subsection \<open>Moving\<close>

text \<open>
  \<open>Map(Map&& other)\<close>: the new object and what is left of \<open>other\<close>.
\<close>

definition Map_move_ctor :: "('k, 'v) Map \<Rightarrow> ('k, 'v) Map \<times> ('k, 'v) Map" where
  "Map_move_ctor other =
     (\<lparr>root' = root' other, size' = size' other\<rparr>, \<lparr>root' = nullptr, size' = 0\<rparr>)"

text \<open>
  \<open>operator=(Map&& other)\<close>, for the object at \<open>this\<close> in state \<open>m\<close> and the object
  at \<open>that\<close> in state \<open>other\<close>: the two states afterwards. When \<open>this = that\<close> both
  arguments are the one object.
\<close>

definition Map_move_assign ::
  "address \<Rightarrow> ('k::linorder, 'v) Map \<Rightarrow> address \<Rightarrow> ('k, 'v) Map
     \<Rightarrow> (('k, 'v) Map \<times> ('k, 'v) Map) option" where
  "Map_move_assign this m that other =
     (if this \<noteq> that then
        (case Map_clear this m of
           None \<Rightarrow> None
         | Some m2 \<Rightarrow>
             Some (m2\<lparr>root' := root' other, size' := size' other\<rparr>,
                   \<lparr>root' = nullptr, size' = 0\<rparr>))
      else Some (m, m))"

subsection \<open>Iteration and \<open>lower_bound\<close>\<close>

text \<open>
  The loop \<open>for (it = first; it != last; ++it)\<close> that the range-based \<open>for\<close> of the
  copy constructor runs, returning the pairs \<open>*it\<close> it visits in order.
\<close>

partial_function (option) iterate ::
  "('k::linorder, 'v) Map \<Rightarrow> iterator \<Rightarrow> iterator \<Rightarrow> ('k \<times> 'v) list option" where
  "iterate m first1 last1 =
     (if iterator_ne first1 last1 then
        (case iterator_deref m first1 of
           None \<Rightarrow> None
         | Some p \<Rightarrow>
             (case iterator_incr m first1 of
                None \<Rightarrow> None
              | Some nxt \<Rightarrow> Option.bind (iterate m nxt last1) (\<lambda>ps. Some (p # ps))))
      else Some [])"

text \<open>
  \<open>std::find_if(first, last, pred)\<close> of the standard library:
  \<open>for (; first != last; ++first) if (pred(*first)) return first; return last;\<close>
\<close>

partial_function (option) find_if ::
  "('k::linorder, 'v) Map \<Rightarrow> iterator \<Rightarrow> iterator \<Rightarrow> ('k \<times> 'v \<Rightarrow> bool) \<Rightarrow> iterator option" where
  "find_if m first1 last1 pred =
     (if iterator_ne first1 last1 then
        (case iterator_deref m first1 of
           None \<Rightarrow> None
         | Some v \<Rightarrow>
             if pred v then Some first1
             else (case iterator_incr m first1 of
                     None \<Rightarrow> None
                   | Some nxt \<Rightarrow> find_if m nxt last1 pred))
      else Some last1)"

definition Map_lower_bound ::
  "address \<Rightarrow> ('k::linorder, 'v) Map \<Rightarrow> 'k \<Rightarrow> iterator option" where
  "Map_lower_bound this m k =
     find_if m (Map_begin this m) (Map_end this) (\<lambda>v. \<not> (fst v < k))"

declare clear_loop.simps [code]

declare iterate.simps [code]

declare find_if.simps [code]

section \<open>Abstraction: node sequences, invariants and operation sequences\<close>

text \<open>
  The nodes a pointer owns, in order (left subtree, node, right subtree): the address of
  each node with its pair. \<open>entries\<close> are the pairs, \<open>keys\<close> the keys and
  \<open>addrs\<close> the addresses of that sequence.
\<close>

fun nodes :: "('k, 'v) Entry \<Rightarrow> (address \<times> 'k \<times> 'v) list" where
  "nodes nullptr = []"
| "nodes (Entry a p l r h) = nodes l @ (a, p) # nodes r"

definition entries :: "('k, 'v) Entry \<Rightarrow> ('k \<times> 'v) list" where
  "entries t = map snd (nodes t)"

definition keys :: "('k, 'v) Entry \<Rightarrow> 'k list" where
  "keys t = map (\<lambda>x. fst (snd x)) (nodes t)"

definition addrs :: "('k, 'v) Entry \<Rightarrow> address list" where
  "addrs t = map fst (nodes t)"

text \<open>The height of a subtree, computed from its shape and not read from the cache.\<close>

fun tree_height :: "('k, 'v) Entry \<Rightarrow> int" where
  "tree_height nullptr = 0"
| "tree_height (Entry a p l r h) = 1 + max (tree_height l) (tree_height r)"

text \<open>
  Balance and height correctness at every node: the heights of the two children differ
  by at most one, and the cached \<open>height\<close> is one more than the larger of them.
\<close>

fun avl :: "('k, 'v) Entry \<Rightarrow> bool" where
  "avl nullptr = True"
| "avl (Entry a p l r h) =
     (\<bar>tree_height l - tree_height r\<bar> \<le> 1 \<and>
      h = 1 + max (tree_height l) (tree_height r) \<and> avl l \<and> avl r)"

text \<open>
  Search-tree order at every node: every key of the left subtree is less than the key of
  the node, every key of the right subtree is greater.
\<close>

fun bst :: "('k::linorder, 'v) Entry \<Rightarrow> bool" where
  "bst nullptr = True"
| "bst (Entry a p l r h) =
     ((\<forall>k \<in> set (keys l). k < fst p) \<and> (\<forall>k \<in> set (keys r). fst p < k) \<and> bst l \<and> bst r)"

text \<open>
  The root of a subtree that has just grown by one level leans to the side the new key
  \<open>k\<close> went to. This is what makes the choice of rotation by key in
  \<open>RebalanceTreeAfterInsertion\<close> agree with the shape of the tree.
\<close>

fun heavy_towards :: "'k::linorder \<Rightarrow> ('k, 'v) Entry \<Rightarrow> bool" where
  "heavy_towards k nullptr = False"
| "heavy_towards k (Entry a p l r h) =
     ((k < fst p \<and> tree_height l = tree_height r + 1) \<or>
      (fst p < k \<and> tree_height r = tree_height l + 1))"

text \<open>
  The in-order sequence \<open>InsertRecursive\<close> produces, read off its descent without the
  rotations, and the insertion of a node into a sequence sorted by key.
\<close>

fun insert_nodes :: "address \<Rightarrow> ('k::linorder, 'v) Entry \<Rightarrow> 'k \<times> 'v \<Rightarrow> (address \<times> 'k \<times> 'v) list" where
  "insert_nodes n nullptr p = [(n, p)]"
| "insert_nodes n (Entry a q l r h) p =
     (if fst p < fst q then insert_nodes n l p @ (a, q) # nodes r
      else if fst q < fst p then nodes l @ (a, q) # insert_nodes n r p
      else nodes l @ (a, p) # nodes r)"

fun ins_node :: "address \<times> 'k::linorder \<times> 'v \<Rightarrow> (address \<times> 'k \<times> 'v) list \<Rightarrow> (address \<times> 'k \<times> 'v) list" where
  "ins_node x [] = [x]"
| "ins_node x (y # ys) =
     (if fst (snd x) < fst (snd y) then x # y # ys else y # ins_node x ys)"

text \<open>
  The in-order sequence \<open>RemoveRecursive\<close> produces, read off its descent without the
  rotations. A node with two children keeps its address and takes the pair of the first
  node of its right subtree, and that node goes.
\<close>

fun erase_nodes :: "('k::linorder, 'v) Entry \<Rightarrow> 'k \<Rightarrow> (address \<times> 'k \<times> 'v) list" where
  "erase_nodes nullptr k = []"
| "erase_nodes (Entry a q l r h) k =
     (if k < fst q then erase_nodes l k @ (a, q) # nodes r
      else if fst q < k then nodes l @ (a, q) # erase_nodes r k
      else if l = nullptr then nodes r
      else if r = nullptr then nodes l
      else nodes l @ (a, snd (hd (nodes r))) # tl (nodes r))"

text \<open>The node a descent by key ends at, as \<open>find\<close> and \<open>RemoveRecursive\<close> walk it.\<close>

fun lookup :: "('k::linorder, 'v) Entry \<Rightarrow> 'k \<Rightarrow> ('k, 'v) Entry" where
  "lookup nullptr k = nullptr"
| "lookup (Entry a p l r h) k =
     (if k < fst p then lookup l k
      else if fst p < k then lookup r k
      else Entry a p l r h)"

text \<open>
  The invariants of the tree a map owns: search-tree order, balance with correct cached
  heights, and no address used by two nodes.
\<close>

definition Tree_inv :: "('k::linorder, 'v) Entry \<Rightarrow> bool" where
  "Tree_inv t = (bst t \<and> avl t \<and> distinct (addrs t))"

text \<open>
  The invariants of a map object: those of its tree, and \<open>size_\<close> equal to the number of
  nodes.
\<close>

definition Map_inv :: "('k::linorder, 'v) Map \<Rightarrow> bool" where
  "Map_inv m = (Tree_inv (root' m) \<and> unat (size' m) = num_nodes (root' m))"

text \<open>The nodes of a sequence whose key is greater than \<open>k\<close>.\<close>

definition nodes_above :: "'k::linorder \<Rightarrow> (address \<times> 'k \<times> 'v) list \<Rightarrow> (address \<times> 'k \<times> 'v) list" where
  "nodes_above k xs = filter (\<lambda>x. k < fst (snd x)) xs"

text \<open>
  Calls of the public mutating functions on one map object. An insertion carries the
  address \<open>New<Entry>\<close> returns if it is called; an allocator returns neither the null
  address nor the address of a live node, so a sequence that names one is not a run of
  the program (\<open>None\<close>). \<open>EraseAt it foreign\<close> is \<open>erase(it)\<close> for any iterator
  value; \<open>foreign\<close> is the pair of the live node of another map that \<open>it\<close> points to,
  if it points to one.
\<close>

datatype ('k, 'v) operation =
    Emplace address "'k \<times> 'v"
  | Insert address "'k \<times> 'v"
  | Subscript address 'k
  | EraseKey 'k
  | EraseAt iterator "('k \<times> 'v) option"
  | Clear

fun apply_operation ::
  "address \<Rightarrow> 'v \<Rightarrow> ('k::linorder, 'v) Map \<Rightarrow> ('k, 'v) operation \<Rightarrow> ('k, 'v) Map option" where
  "apply_operation this T0 m (Emplace n p) =
     (if n = 0 \<or> n \<in> set (addrs (root' m)) then None else Some (snd (Map_emplace this n m p)))"
| "apply_operation this T0 m (Insert n p) =
     (if n = 0 \<or> n \<in> set (addrs (root' m)) then None else Some (snd (Map_insert this n m p)))"
| "apply_operation this T0 m (Subscript n k) =
     (if n = 0 \<or> n \<in> set (addrs (root' m)) then None
      else Some (snd (Map_subscript this n T0 m k)))"
| "apply_operation this T0 m (EraseKey k) = map_option snd (Map_erase_key this m k)"
| "apply_operation this T0 m (EraseAt it foreign) = map_option snd (Map_erase this m it foreign)"
| "apply_operation this T0 m Clear = Map_clear this m"

text \<open>The state after a sequence of calls, from the state \<open>m\<close>.\<close>

fun run ::
  "address \<Rightarrow> 'v \<Rightarrow> ('k::linorder, 'v) Map \<Rightarrow> ('k, 'v) operation list \<Rightarrow> ('k, 'v) Map option" where
  "run this T0 m [] = Some m"
| "run this T0 m (x # xs) =
     (case apply_operation this T0 m x of None \<Rightarrow> None | Some m2 \<Rightarrow> run this T0 m2 xs)"

text \<open>
  An iterator of the map in state \<open>m\<close>: its end iterator, or an iterator to one of its
  nodes. The code never checks this; it is what the caller of \<open>erase(iterator)\<close> owes.
\<close>

definition own_iterator :: "('k, 'v) Map \<Rightarrow> iterator \<Rightarrow> bool" where
  "own_iterator m it = (case curr' it of None \<Rightarrow> True | Some a \<Rightarrow> a \<in> set (addrs (root' m)))"

fun own_iterators :: "('k, 'v) Map \<Rightarrow> ('k, 'v) operation \<Rightarrow> bool" where
  "own_iterators m (EraseAt it foreign) = own_iterator m it"
| "own_iterators m (Emplace n p) = True"
| "own_iterators m (Insert n p) = True"
| "own_iterators m (Subscript n k) = True"
| "own_iterators m (EraseKey k) = True"
| "own_iterators m Clear = True"

text \<open>
  A sequence of calls in which every \<open>erase(iterator)\<close> is given an iterator of the map
  in the state it is called in.
\<close>

fun in_contract ::
  "address \<Rightarrow> 'v \<Rightarrow> ('k::linorder, 'v) Map \<Rightarrow> ('k, 'v) operation list \<Rightarrow> bool" where
  "in_contract this T0 m [] = True"
| "in_contract this T0 m (x # xs) =
     (own_iterators m x \<and>
      (case apply_operation this T0 m x of None \<Rightarrow> True | Some m2 \<Rightarrow> in_contract this T0 m2 xs))"

text \<open>
  An example: seven insertions (the keys of the spec's first scenario), then
  \<open>erase(5)\<close> of the root, \<open>operator[](6)\<close>, \<open>erase\<close> through an iterator
  that points to the node of key 3, and \<open>erase(42)\<close> of a key that is not there.
\<close>

definition example_ops :: "(int, string) operation list" where
  "example_ops =
     [Emplace 100 (5, ''e''), Insert 101 (3, ''c''), Emplace 102 (8, ''h''),
      Emplace 103 (1, ''a''), Emplace 104 (4, ''d''), Emplace 105 (7, ''g''),
      Emplace 106 (9, ''i''), EraseKey 5, Subscript 107 6,
      EraseAt \<lparr>curr' = Some 101, map' = 10\<rparr> None, EraseKey 42]"

definition example_map :: "(int, string) Map" where
  "example_map =
     \<lparr>root' =
        Entry 100 (7, ''g'')
          (Entry 101 (4, ''d'') (Entry 103 (1, ''a'') nullptr nullptr 1)
             (Entry 107 (6, []) nullptr nullptr 1) 2)
          (Entry 102 (8, ''h'') nullptr (Entry 106 (9, ''i'') nullptr nullptr 1) 2)
          3,
      size' = 6\<rparr>"

text \<open>
  A second map, another object with nodes of its own: two insertions.
\<close>

definition other_ops :: "(int, string) operation list" where
  "other_ops = [Emplace 500 (42, ''x''), Emplace 501 (43, ''y'')]"

definition other_map :: "(int, string) Map" where
  "other_map =
     \<lparr>root' = Entry 500 (42, ''x'') nullptr (Entry 501 (43, ''y'') nullptr nullptr 1) 2,
      size' = 2\<rparr>"

text \<open>
  The reference definition of \<open>lower_bound\<close> that the spec recommends: one descent from the
  root, keeping the last node whose key is not less than \<open>k\<close> as the candidate.
\<close>

fun lower_bound_descent ::
  "('k::linorder, 'v) Entry \<Rightarrow> 'k \<Rightarrow> ('k, 'v) Entry \<Rightarrow> ('k, 'v) Entry" where
  "lower_bound_descent nullptr k candidate = candidate"
| "lower_bound_descent (Entry a p l r h) k candidate =
     (if fst p < k then lower_bound_descent r k candidate
      else lower_bound_descent l k (Entry a p l r h))"

definition lower_bound_reference :: "address \<Rightarrow> ('k::linorder, 'v) Map \<Rightarrow> 'k \<Rightarrow> iterator" where
  "lower_bound_reference this m k = iterator_of this (lower_bound_descent (root' m) k nullptr)"

text \<open>The address of the first node of a sequence, null for the empty sequence.\<close>

fun first_ptr :: "(address \<times> 'k \<times> 'v) list \<Rightarrow> address option" where
  "first_ptr [] = None"
| "first_ptr (y # ys) = Some (fst y)"

section \<open>Proofs\<close>

subsection \<open>Heights, comparison and rebalancing after insertion\<close>

lemma keys_simps [simp]:
  "keys nullptr = []"
  "keys (Entry a p l r h) = keys l @ fst p # keys r"
  by (simp_all add: keys_def)

lemma tree_height_nonneg: "0 \<le> tree_height t"
  by (induction t) auto

lemma tree_height_0_iff: "tree_height t = 0 \<longleftrightarrow> t = nullptr"
proof (cases t)
  case nullptr
  then show ?thesis by simp
next
  case (Entry a p l r h)
  have "0 \<le> max (tree_height l) (tree_height r)"
    using tree_height_nonneg[of l] by linarith
  with Entry show ?thesis by simp
qed

lemma avl_EntryHeight: "avl t \<Longrightarrow> EntryHeight t = tree_height t"
  by (cases t) auto

lemma CompareKeys_gt [simp]: "CompareKeys a b > 0 \<longleftrightarrow> b < a"
  by (auto simp: CompareKeys_def Let_def)

lemma CompareKeys_lt [simp]: "CompareKeys a b < 0 \<longleftrightarrow> a < b"
  by (auto simp: CompareKeys_def Let_def)

lemma CompareKeys_eq [simp]: "CompareKeys a b = 0 \<longleftrightarrow> a = b"
  by (auto simp: CompareKeys_def Let_def)

lemma GPR_MAX_max [simp]: "GPR_MAX a b = max a b"
  by (simp add: GPR_MAX_def max_def)

lemma rebalance_ins_balanced:
  assumes "avl l" "avl r" "\<bar>tree_height l - tree_height r\<bar> \<le> 1"
  shows "RebalanceTreeAfterInsertion (Entry a p l r h) k =
           Entry a p l r (1 + max (tree_height l) (tree_height r))"
proof -
  from assms(3) have "\<not> 1 < tree_height l - tree_height r" "\<not> tree_height l - tree_height r < - 1"
    by linarith+
  with assms(1,2) show ?thesis by (simp add: avl_EntryHeight Let_def)
qed

lemma rebalance_ins_left:
  assumes "avl l" "avl r" "tree_height l = tree_height r + 2" "heavy_towards k l"
  shows "avl (RebalanceTreeAfterInsertion (Entry a p l r h) k) \<and>
         tree_height (RebalanceTreeAfterInsertion (Entry a p l r h) k) = tree_height r + 2 \<and>
         nodes (RebalanceTreeAfterInsertion (Entry a p l r h) k) = nodes l @ (a, p) # nodes r"
proof -
  obtain b q ll lr lh where l: "l = Entry b q ll lr lh"
    using assms(4) by (cases l) auto
  show ?thesis
  proof (cases "k < fst q")
    case True
    with assms l have hh: "tree_height ll = tree_height lr + 1" by auto
    from True assms l hh show ?thesis
      by (simp add: avl_EntryHeight Let_def)
  next
    case False
    with assms l have hh: "tree_height lr = tree_height ll + 1" and kq: "fst q < k" by auto
    then obtain c s lrl lrr lrh where lr: "lr = Entry c s lrl lrr lrh"
      using tree_height_nonneg[of ll] by (cases lr) auto
    from False kq assms l hh lr show ?thesis
      by (simp add: avl_EntryHeight Let_def) arith
  qed
qed

lemma rebalance_ins_right:
  assumes "avl l" "avl r" "tree_height r = tree_height l + 2" "heavy_towards k r"
  shows "avl (RebalanceTreeAfterInsertion (Entry a p l r h) k) \<and>
         tree_height (RebalanceTreeAfterInsertion (Entry a p l r h) k) = tree_height l + 2 \<and>
         nodes (RebalanceTreeAfterInsertion (Entry a p l r h) k) = nodes l @ (a, p) # nodes r"
proof -
  obtain b q rl rr rh where r: "r = Entry b q rl rr rh"
    using assms(4) by (cases r) auto
  show ?thesis
  proof (cases "fst q < k")
    case True
    with assms r have hh: "tree_height rr = tree_height rl + 1" by auto
    from True assms r hh show ?thesis
      by (simp add: avl_EntryHeight Let_def)
  next
    case False
    with assms r have hh: "tree_height rl = tree_height rr + 1" and kq: "k < fst q" by auto
    then obtain c s rll rlr rlh where rl: "rl = Entry c s rll rlr rlh"
      using tree_height_nonneg[of rr] by (cases rl) auto
    from False kq assms r hh rl show ?thesis
      by (simp add: avl_EntryHeight Let_def) arith
  qed
qed

lemma InsertRecursive_avl:
  assumes "avl t"
  shows "avl (snd (InsertRecursive this n t p)) \<and>
         (tree_height (snd (InsertRecursive this n t p)) = tree_height t \<or>
          tree_height (snd (InsertRecursive this n t p)) = tree_height t + 1 \<and>
          (t \<noteq> nullptr \<longrightarrow> heavy_towards (fst p) (snd (InsertRecursive this n t p)))) \<and>
         nodes (snd (InsertRecursive this n t p)) = insert_nodes n t p"
  using assms
proof (induction t)
  case nullptr
  then show ?case by (simp add: Let_def)
next
  case (Entry a q l r h)
  let ?k = "fst p"
  from Entry.prems have al: "avl l" and ar: "avl r"
    and bal: "\<bar>tree_height l - tree_height r\<bar> \<le> 1" by auto
  show ?case
  proof (cases "?k < fst q")
    case True
    define l2 where "l2 = snd (InsertRecursive this n l p)"
    have res: "snd (InsertRecursive this n (Entry a q l r h) p) =
                 RebalanceTreeAfterInsertion (Entry a q l2 r h) ?k"
      using True by (simp add: Let_def l2_def)
    from Entry.IH(1)[OF al] have al2: "avl l2"
      and hl2: "tree_height l2 = tree_height l \<or>
                tree_height l2 = tree_height l + 1 \<and> (l \<noteq> nullptr \<longrightarrow> heavy_towards ?k l2)"
      and nl2: "nodes l2 = insert_nodes n l p"
      by (simp_all add: l2_def)
    show ?thesis
    proof (cases "tree_height l2 = tree_height r + 2")
      case True
      with hl2 bal have "tree_height l2 = tree_height l + 1" "tree_height l = tree_height r + 1"
        by linarith+
      moreover from this have "l \<noteq> nullptr" using tree_height_nonneg[of r] by auto
      ultimately have hv: "heavy_towards ?k l2" using hl2 by auto
      from rebalance_ins_left[OF al2 ar True hv, of a q h] \<open>tree_height l = tree_height r + 1\<close>
        nl2 \<open>?k < fst q\<close>
      show ?thesis unfolding res by simp
    next
      case False
      with hl2 bal have bal2: "\<bar>tree_height l2 - tree_height r\<bar> \<le> 1" by linarith
      have eq: "RebalanceTreeAfterInsertion (Entry a q l2 r h) ?k =
                  Entry a q l2 r (1 + max (tree_height l2) (tree_height r))"
        by (rule rebalance_ins_balanced[OF al2 ar bal2])
      from hl2 have "tree_height l2 = tree_height l \<or> tree_height l2 = tree_height l + 1"
        by blast
      with bal bal2 al2 ar True nl2 show ?thesis unfolding res eq
        by (auto simp: max_def)
    qed
  next
    case nlt: False
    show ?thesis
    proof (cases "fst q < ?k")
      case True
      define r2 where "r2 = snd (InsertRecursive this n r p)"
      have res: "snd (InsertRecursive this n (Entry a q l r h) p) =
                   RebalanceTreeAfterInsertion (Entry a q l r2 h) ?k"
        using True nlt by (simp add: Let_def r2_def)
      from Entry.IH(2)[OF ar] have ar2: "avl r2"
        and hr2: "tree_height r2 = tree_height r \<or>
                  tree_height r2 = tree_height r + 1 \<and> (r \<noteq> nullptr \<longrightarrow> heavy_towards ?k r2)"
        and nr2: "nodes r2 = insert_nodes n r p"
        by (simp_all add: r2_def)
      show ?thesis
      proof (cases "tree_height r2 = tree_height l + 2")
        case True
        with hr2 bal have "tree_height r2 = tree_height r + 1" "tree_height r = tree_height l + 1"
          by linarith+
        moreover from this have "r \<noteq> nullptr" using tree_height_nonneg[of l] by auto
        ultimately have hv: "heavy_towards ?k r2" using hr2 by auto
        from rebalance_ins_right[OF al ar2 True hv, of a q h] \<open>tree_height r = tree_height l + 1\<close>
          nr2 \<open>fst q < ?k\<close> nlt
        show ?thesis unfolding res by simp
      next
        case False
        with hr2 bal have bal2: "\<bar>tree_height l - tree_height r2\<bar> \<le> 1" by linarith
        have eq: "RebalanceTreeAfterInsertion (Entry a q l r2 h) ?k =
                    Entry a q l r2 (1 + max (tree_height l) (tree_height r2))"
          by (rule rebalance_ins_balanced[OF al ar2 bal2])
        from hr2 have "tree_height r2 = tree_height r \<or> tree_height r2 = tree_height r + 1"
          by blast
        with bal bal2 al ar2 True nlt nr2 show ?thesis unfolding res eq
          by (auto simp: max_def)
      qed
    next
      case False
      with nlt have "fst q = ?k" by simp
      with Entry.prems show ?thesis by (simp add: Let_def)
    qed
  qed
qed

subsection \<open>Insertion into a sorted node sequence\<close>

lemma ins_node_lt:
  "fst (snd x) < fst (snd y) \<Longrightarrow> ins_node x (xs @ y # ys) = ins_node x xs @ y # ys"
  by (induction xs) auto

lemma ins_node_gt:
  "\<forall>z \<in> set xs. fst (snd z) < fst (snd x) \<Longrightarrow> fst (snd y) < fst (snd x) \<Longrightarrow>
   ins_node x (xs @ y # ys) = xs @ y # ins_node x ys"
  by (induction xs) auto

lemma set_ins_node [simp]: "set (ins_node x xs) = insert x (set xs)"
  by (induction xs) auto

lemma length_ins_node [simp]: "length (ins_node x xs) = Suc (length xs)"
  by (induction xs) auto

lemma bst_iff_sorted: "bst t \<longleftrightarrow> sorted_wrt (<) (keys t)"
  by (induction t) (auto simp: sorted_wrt_append dest: less_trans)

lemma insert_nodes_ins_node:
  assumes "bst t" "fst p \<notin> set (keys t)"
  shows "insert_nodes n t p = ins_node (n, p) (nodes t)"
  using assms
proof (induction t)
  case nullptr
  then show ?case by simp
next
  case (Entry a q l r h)
  from Entry.prems have bl: "bst l" and br: "bst r"
    and nl: "fst p \<notin> set (keys l)" and nr: "fst p \<notin> set (keys r)" and ne: "fst p \<noteq> fst q"
    and lo: "\<forall>z \<in> set (nodes l). fst (snd z) < fst q"
    by (auto simp: keys_def)
  show ?case
  proof (cases "fst p < fst q")
    case True
    then show ?thesis using Entry.IH(1)[OF bl nl] by (simp add: ins_node_lt)
  next
    case False
    with ne have gt: "fst q < fst p" by simp
    with lo have "\<forall>z \<in> set (nodes l). fst (snd z) < fst (snd (n, p))" by auto
    moreover from gt have "fst (snd (a, q)) < fst (snd (n, p))" by simp
    ultimately have "ins_node (n, p) (nodes l @ (a, q) # nodes r) =
                       nodes l @ (a, q) # ins_node (n, p) (nodes r)"
      by (rule ins_node_gt)
    with False gt Entry.IH(2)[OF br nr] show ?thesis by simp
  qed
qed

lemma keys_ins_node_sorted:
  "sorted_wrt (<) (map (\<lambda>x. fst (snd x)) xs) \<Longrightarrow> fst (snd x) \<notin> set (map (\<lambda>x. fst (snd x)) xs) \<Longrightarrow>
   sorted_wrt (<) (map (\<lambda>x. fst (snd x)) (ins_node x xs))"
  by (induction xs) auto

lemma num_nodes_length: "num_nodes t = length (nodes t)"
  by (induction t) auto

subsection \<open>Rebalancing after deletion\<close>

lemma rebalance_del_balanced:
  assumes "avl l" "avl r" "\<bar>tree_height l - tree_height r\<bar> \<le> 1"
  shows "RebalanceTreeAfterDeletion (Entry a p l r h) =
           Entry a p l r (1 + max (tree_height l) (tree_height r))"
proof -
  from assms(3) have "\<not> 1 < tree_height l - tree_height r" "\<not> tree_height l - tree_height r < - 1"
    by linarith+
  with assms(1,2) show ?thesis by (simp add: avl_EntryHeight Let_def)
qed

lemma rebalance_del_left:
  assumes "avl l" "avl r" "tree_height l = tree_height r + 2"
  shows "avl (RebalanceTreeAfterDeletion (Entry a p l r h)) \<and>
         (tree_height (RebalanceTreeAfterDeletion (Entry a p l r h)) = tree_height l \<or>
          tree_height (RebalanceTreeAfterDeletion (Entry a p l r h)) = tree_height l + 1) \<and>
         nodes (RebalanceTreeAfterDeletion (Entry a p l r h)) = nodes l @ (a, p) # nodes r"
proof -
  obtain b q ll lr lh where l: "l = Entry b q ll lr lh"
    using assms(3) tree_height_nonneg[of r] by (cases l) auto
  show ?thesis
  proof (cases "tree_height ll < tree_height lr")
    case True
    then obtain c s lrl lrr lrh where lr: "lr = Entry c s lrl lrr lrh"
      using tree_height_nonneg[of ll] by (cases lr) auto
    from True assms l lr show ?thesis
      by (simp add: avl_EntryHeight Let_def) arith
  next
    case False
    with assms l show ?thesis
      by (simp add: avl_EntryHeight Let_def) arith
  qed
qed

lemma rebalance_del_right:
  assumes "avl l" "avl r" "tree_height r = tree_height l + 2"
  shows "avl (RebalanceTreeAfterDeletion (Entry a p l r h)) \<and>
         (tree_height (RebalanceTreeAfterDeletion (Entry a p l r h)) = tree_height r \<or>
          tree_height (RebalanceTreeAfterDeletion (Entry a p l r h)) = tree_height r + 1) \<and>
         nodes (RebalanceTreeAfterDeletion (Entry a p l r h)) = nodes l @ (a, p) # nodes r"
proof -
  obtain b q rl rr rh where r: "r = Entry b q rl rr rh"
    using assms(3) tree_height_nonneg[of l] by (cases r) auto
  show ?thesis
  proof (cases "tree_height rl > tree_height rr")
    case True
    then obtain c s rll rlr rlh where rl: "rl = Entry c s rll rlr rlh"
      using tree_height_nonneg[of rr] by (cases rl) auto
    from True assms r rl show ?thesis
      by (simp add: avl_EntryHeight Let_def) arith
  next
    case False
    with assms r show ?thesis
      by (simp add: avl_EntryHeight Let_def) arith
  qed
qed

text \<open>Rebalancing after one child lost at most one level.\<close>

lemma rebalance_del:
  assumes "avl l" "avl r" "\<bar>tree_height l - tree_height r\<bar> \<le> 2"
  shows "avl (RebalanceTreeAfterDeletion (Entry a p l r h)) \<and>
         (tree_height (RebalanceTreeAfterDeletion (Entry a p l r h)) = 1 + max (tree_height l) (tree_height r) \<or>
          tree_height (RebalanceTreeAfterDeletion (Entry a p l r h)) = max (tree_height l) (tree_height r) \<and>
          \<bar>tree_height l - tree_height r\<bar> = 2) \<and>
         nodes (RebalanceTreeAfterDeletion (Entry a p l r h)) = nodes l @ (a, p) # nodes r"
proof -
  consider "\<bar>tree_height l - tree_height r\<bar> \<le> 1" | "tree_height l = tree_height r + 2"
    | "tree_height r = tree_height l + 2"
    using assms(3) by linarith
  then show ?thesis
  proof cases
    case 1
    from rebalance_del_balanced[OF assms(1,2) 1, of a p h] assms(1,2) 1 show ?thesis by simp
  next
    case 2
    from rebalance_del_left[OF assms(1,2) 2, of a p h] 2 show ?thesis
      by (simp add: max_def del: RebalanceTreeAfterDeletion.simps) linarith
  next
    case 3
    from rebalance_del_right[OF assms(1,2) 3, of a p h] 3 show ?thesis
      by (simp add: max_def del: RebalanceTreeAfterDeletion.simps) linarith
  qed
qed

declare RebalanceTreeAfterDeletion.simps [simp del]

declare RebalanceTreeAfterInsertion.simps [simp del]

subsection \<open>Writing through a pointer, and the minimum of a subtree\<close>

lemma addrs_simps [simp]:
  "addrs nullptr = []"
  "addrs (Entry a p l r h) = addrs l @ a # addrs r"
  by (simp_all add: addrs_def)

lemma nodes_Nil_iff [simp]: "nodes t = [] \<longleftrightarrow> t = nullptr"
  by (cases t) auto

lemma tree_height_store_pair [simp]: "tree_height (store_pair x p t) = tree_height t"
  by (induction t) auto

lemma avl_store_pair [simp]: "avl (store_pair x p t) = avl t"
  by (induction t) auto

lemma store_pair_absent: "x \<notin> set (addrs t) \<Longrightarrow> store_pair x p t = t"
  by (induction t) auto

lemma map_store_absent:
  "x \<notin> fst ` set xs \<Longrightarrow> map (\<lambda>y. if fst y = x then (x, p) else y) xs = xs"
  by (induction xs) auto

lemma nodes_store_pair:
  "distinct (addrs t) \<Longrightarrow>
   nodes (store_pair x p t) = map (\<lambda>y. if fst y = x then (x, p) else y) (nodes t)"
proof (induction t)
  case nullptr
  then show ?case by simp
next
  case (Entry a q l r h)
  then have dl: "distinct (addrs l)" and dr: "distinct (addrs r)"
    and al: "a \<notin> set (addrs l)" and ar: "a \<notin> set (addrs r)" by auto
  show ?case
  proof (cases "a = x")
    case True
    from al ar True have "x \<notin> fst ` set (nodes l)" "x \<notin> fst ` set (nodes r)"
      by (auto simp: addrs_def)
    then show ?thesis using True by (simp add: map_store_absent)
  next
    case False
    then show ?thesis using Entry.IH(1)[OF dl] Entry.IH(2)[OF dr] by simp
  qed
qed

lemma GetMinEntry_hd:
  "t \<noteq> nullptr \<Longrightarrow>
   GetMinEntry t \<noteq> nullptr \<and> (addr (GetMinEntry t), pair (GetMinEntry t)) = hd (nodes t) \<and>
   left (GetMinEntry t) = nullptr"
  by (induction t) auto

lemma nodes_store_pair_min:
  assumes "distinct (addrs t)" "t \<noteq> nullptr"
  shows "nodes (store_pair (addr (GetMinEntry t)) p t) = (addr (GetMinEntry t), p) # tl (nodes t)"
proof -
  let ?x = "addr (GetMinEntry t)"
  from GetMinEntry_hd[OF assms(2)] obtain rest where n: "nodes t = (?x, pair (GetMinEntry t)) # rest"
    using assms(2) by (cases "nodes t") auto
  with assms(1) have "?x \<notin> fst ` set rest" by (simp add: addrs_def)
  then have "map (\<lambda>y. if fst y = ?x then (?x, p) else y) rest = rest"
    by (rule map_store_absent)
  with n show ?thesis by (simp add: nodes_store_pair[OF assms(1)])
qed

lemma erase_nodes_min:
  "bst t \<Longrightarrow> t \<noteq> nullptr \<Longrightarrow> erase_nodes t (fst (snd (hd (nodes t)))) = tl (nodes t)"
proof (induction t)
  case nullptr
  then show ?case by simp
next
  case (Entry a q l r h)
  show ?case
  proof (cases "l = nullptr")
    case True
    then show ?thesis by simp
  next
    case False
    then have ne: "nodes l \<noteq> []" by simp
    then have "fst (snd (hd (nodes l))) \<in> set (keys l)"
      by (simp add: keys_def)
    with Entry.prems have "fst (snd (hd (nodes l))) < fst q" by simp
    with ne Entry.IH(1) Entry.prems False show ?thesis by simp
  qed
qed

subsection \<open>\<open>RemoveRecursive\<close> keeps the tree balanced\<close>

lemma addrs_store_pair: "distinct (addrs t) \<Longrightarrow> addrs (store_pair x p t) = addrs t"
  by (simp add: addrs_def nodes_store_pair)

lemma del_height_left:
  fixes T :: int
  assumes "T = 1 + max hl2 hr \<or> T = max hl2 hr \<and> \<bar>hl2 - hr\<bar> = 2"
    and "hl2 = hl \<or> hl2 = hl - 1" and "\<bar>hl - hr\<bar> \<le> 1"
  shows "T = 1 + max hl hr \<or> T = 1 + max hl hr - 1"
  using assms by (auto simp: max_def split: if_splits)

lemma del_height_right:
  fixes T :: int
  assumes "T = 1 + max hl hr2 \<or> T = max hl hr2 \<and> \<bar>hl - hr2\<bar> = 2"
    and "hr2 = hr \<or> hr2 = hr - 1" and "\<bar>hl - hr\<bar> \<le> 1"
  shows "T = 1 + max hl hr \<or> T = 1 + max hl hr - 1"
  using assms by (auto simp: max_def split: if_splits)

lemma RemoveRecursive_avl:
  assumes "avl t" "bst t" "distinct (addrs t)"
  shows "avl (snd (RemoveRecursive this rt t k)) \<and>
         (tree_height (snd (RemoveRecursive this rt t k)) = tree_height t \<or>
          tree_height (snd (RemoveRecursive this rt t k)) = tree_height t - 1) \<and>
         nodes (snd (RemoveRecursive this rt t k)) = erase_nodes t k"
  using assms
proof (induction this rt t k rule: RemoveRecursive.induct)
  case (1 this rt k)
  show ?case by simp
next
  case (2 this rt a q l r h k)
  from "2.prems" have al: "avl l" and ar: "avl r"
    and bal: "\<bar>tree_height l - tree_height r\<bar> \<le> 1"
    and bl: "bst l" and br: "bst r"
    and dl: "distinct (addrs l)" and dr: "distinct (addrs r)"
    by auto
  consider (lt) "k < fst q" | (gt) "fst q < k" | (eq) "fst q = k"
    by force
  then show ?case
  proof cases
    case lt
    define l2 where "l2 = snd (RemoveRecursive this rt l k)"
    have res: "snd (RemoveRecursive this rt (Entry a q l r h) k) =
                 RebalanceTreeAfterDeletion (Entry a q l2 r h)"
      using lt by (simp add: Let_def l2_def)
    have ih: "avl l2 \<and> (tree_height l2 = tree_height l \<or> tree_height l2 = tree_height l - 1) \<and>
              nodes l2 = erase_nodes l k"
      unfolding l2_def using "2.IH"(1)[OF refl _ al bl dl] lt by simp
    then have al2: "avl l2" and bal2: "\<bar>tree_height l2 - tree_height r\<bar> \<le> 2"
      using bal by linarith+
    from rebalance_del[OF al2 ar bal2, of a q h]
    have A: "avl (RebalanceTreeAfterDeletion (Entry a q l2 r h))"
      and H: "tree_height (RebalanceTreeAfterDeletion (Entry a q l2 r h)) = 1 + max (tree_height l2) (tree_height r) \<or>
              tree_height (RebalanceTreeAfterDeletion (Entry a q l2 r h)) = max (tree_height l2) (tree_height r) \<and>
              \<bar>tree_height l2 - tree_height r\<bar> = 2"
      and N: "nodes (RebalanceTreeAfterDeletion (Entry a q l2 r h)) = nodes l2 @ (a, q) # nodes r"
      by blast+
    from ih have "tree_height l2 = tree_height l \<or> tree_height l2 = tree_height l - 1" by blast
    from del_height_left[OF H this bal] A N ih lt
    show ?thesis unfolding res by simp
  next
    case gt
    then have nlt: "\<not> k < fst q" by simp
    define r2 where "r2 = snd (RemoveRecursive this rt r k)"
    have res: "snd (RemoveRecursive this rt (Entry a q l r h) k) =
                 RebalanceTreeAfterDeletion (Entry a q l r2 h)"
      using gt nlt by (simp add: Let_def r2_def)
    have ih: "avl r2 \<and> (tree_height r2 = tree_height r \<or> tree_height r2 = tree_height r - 1) \<and>
              nodes r2 = erase_nodes r k"
      unfolding r2_def using "2.IH"(2)[OF refl _ _ ar br dr] gt nlt by simp
    then have ar2: "avl r2" and bal2: "\<bar>tree_height l - tree_height r2\<bar> \<le> 2"
      using bal by linarith+
    from rebalance_del[OF al ar2 bal2, of a q h]
    have A: "avl (RebalanceTreeAfterDeletion (Entry a q l r2 h))"
      and H: "tree_height (RebalanceTreeAfterDeletion (Entry a q l r2 h)) = 1 + max (tree_height l) (tree_height r2) \<or>
              tree_height (RebalanceTreeAfterDeletion (Entry a q l r2 h)) = max (tree_height l) (tree_height r2) \<and>
              \<bar>tree_height l - tree_height r2\<bar> = 2"
      and N: "nodes (RebalanceTreeAfterDeletion (Entry a q l r2 h)) = nodes l @ (a, q) # nodes r2"
      by blast+
    from ih have "tree_height r2 = tree_height r \<or> tree_height r2 = tree_height r - 1" by blast
    from del_height_right[OF H this bal] A N ih gt nlt
    show ?thesis unfolding res by simp
  next
    case eq
    show ?thesis
    proof (cases "l = nullptr \<or> r = nullptr")
      case True
      with eq al ar bal tree_height_nonneg[of l] tree_height_nonneg[of r]
      show ?thesis by (auto simp: Let_def max_def)
    next
      case False
      then have ln: "l \<noteq> nullptr" and rn: "r \<noteq> nullptr" by auto
      define entry where "entry = GetMinEntry r"
      define r2 where "r2 = store_pair (addr entry) q r"
      define rt2 where "rt2 = store_pair (addr entry) q (store_pair a (pair entry) rt)"
      define r3 where "r3 = snd (RemoveRecursive this rt2 r2 (fst q))"
      have succ: "InOrderSuccessor rt (Entry a q l r h) = entry"
        using rn by (simp add: entry_def)
      have res: "snd (RemoveRecursive this rt (Entry a q l r h) k) =
                   RebalanceTreeAfterDeletion (Entry a (pair entry) l r3 h)"
        using eq ln rn by (simp add: Let_def entry_def r2_def rt2_def r3_def)
      from GetMinEntry_hd[OF rn] have hd: "hd (nodes r) = (addr entry, pair entry)"
        by (simp add: entry_def)
      have n2: "nodes r2 = (addr entry, q) # tl (nodes r)"
        unfolding r2_def entry_def by (rule nodes_store_pair_min[OF dr rn])
      have ar2: "avl r2" using ar by (simp add: r2_def)
      have dr2: "distinct (addrs r2)" using dr by (simp add: r2_def addrs_store_pair)
      from rn have "keys r = fst (snd (hd (nodes r))) # map (\<lambda>x. fst (snd x)) (tl (nodes r))"
        by (cases "nodes r") (auto simp: keys_def)
      moreover have "\<forall>x \<in> set (keys r). fst q < x" using "2.prems"(2) by simp
      moreover have "sorted_wrt (<) (keys r)" using br by (simp add: bst_iff_sorted)
      ultimately have "sorted_wrt (<) (keys r2)"
        by (simp add: keys_def n2)
      then have br2: "bst r2" by (simp add: bst_iff_sorted)
      have r2n: "r2 \<noteq> nullptr" using n2 by auto
      have ih: "avl r3 \<and> (tree_height r3 = tree_height r2 \<or> tree_height r3 = tree_height r2 - 1) \<and>
                nodes r3 = erase_nodes r2 (fst q)"
        unfolding r3_def
        using "2.IH"(3)[OF refl _ _ succ[symmetric] ln rn refl r2_def rt2_def ar2 br2 dr2] eq
        by simp
      have "erase_nodes r2 (fst q) = tl (nodes r2)"
        using erase_nodes_min[OF br2 r2n] n2 by simp
      with ih n2 have n3: "nodes r3 = tl (nodes r)" by simp
      from ih have ar3: "avl r3" and h3: "tree_height r3 = tree_height r \<or> tree_height r3 = tree_height r - 1"
        by (simp_all add: r2_def)
      then have bal3: "\<bar>tree_height l - tree_height r3\<bar> \<le> 2" using bal by linarith
      from rebalance_del[OF al ar3 bal3, of a "pair entry" h]
      have A: "avl (RebalanceTreeAfterDeletion (Entry a (pair entry) l r3 h))"
        and H: "tree_height (RebalanceTreeAfterDeletion (Entry a (pair entry) l r3 h)) = 1 + max (tree_height l) (tree_height r3) \<or>
                tree_height (RebalanceTreeAfterDeletion (Entry a (pair entry) l r3 h)) = max (tree_height l) (tree_height r3) \<and>
                \<bar>tree_height l - tree_height r3\<bar> = 2"
        and N: "nodes (RebalanceTreeAfterDeletion (Entry a (pair entry) l r3 h)) = nodes l @ (a, pair entry) # nodes r3"
        by blast+
      from del_height_right[OF H h3 bal] A N n3 eq ln rn hd
      show ?thesis unfolding res by simp
    qed
  qed
qed

subsection \<open>Descent by key and reading through an address\<close>

lemma iterator_of_nullptr [simp]: "iterator_of this nullptr = Map_end this"
  by (simp add: iterator_of_def Map_end_def)

lemma find_loop_lookup: "find_loop this t k = iterator_of this (lookup t k)"
  by (induction t) (auto simp: Let_def)

lemma lookup_nullptr_iff: "bst t \<Longrightarrow> lookup t k = nullptr \<longleftrightarrow> k \<notin> set (keys t)"
  by (induction t) auto

lemma lookup_key: "lookup t k = Entry a p l r h \<Longrightarrow> fst p = k"
  by (induction t) (auto split: if_splits)

lemma lookup_in_nodes: "lookup t k = Entry a p l r h \<Longrightarrow> (a, p) \<in> set (nodes t)"
  by (induction t) (auto split: if_splits)

lemma node_at_absent: "x \<notin> set (addrs t) \<Longrightarrow> node_at x t = nullptr"
  by (induction t) auto

lemma node_at_addr: "node_at x t = Entry a p l r h \<Longrightarrow> a = x"
  by (induction t) (auto split: if_splits Entry.splits)

lemma node_at_lookup:
  assumes "distinct (addrs t)" "lookup t k = Entry a p l r h"
  shows "node_at a t = Entry a p l r h"
  using assms
proof (induction t)
  case nullptr
  then show ?case by simp
next
  case (Entry b q tl tr th)
  from Entry.prems(1) have dl: "distinct (addrs tl)" and dr: "distinct (addrs tr)"
    and disj: "set (addrs tl) \<inter> set (addrs tr) = {}"
    and bl: "b \<notin> set (addrs tl)" and br: "b \<notin> set (addrs tr)" by auto
  consider (lt) "k < fst q" | (gt) "fst q < k" | (eq) "fst q = k" by force
  then show ?case
  proof cases
    case lt
    with Entry.prems(2) have lk: "lookup tl k = Entry a p l r h" by simp
    then have "a \<in> set (addrs tl)" using lookup_in_nodes[OF lk] by (force simp: addrs_def)
    with bl have "b \<noteq> a" by auto
    with Entry.IH(1)[OF dl lk] show ?thesis by simp
  next
    case gt
    then have "\<not> k < fst q" by simp
    with gt Entry.prems(2) have lk: "lookup tr k = Entry a p l r h" by simp
    then have ar: "a \<in> set (addrs tr)" using lookup_in_nodes[OF lk] by (force simp: addrs_def)
    with br have "b \<noteq> a" by auto
    moreover from ar disj have "a \<notin> set (addrs tl)" by auto
    then have "node_at a tl = nullptr" by (rule node_at_absent)
    ultimately show ?thesis using Entry.IH(2)[OF dr lk] by simp
  next
    case eq
    with Entry.prems(2) show ?thesis by simp
  qed
qed

lemma in_nodes_lookup:
  "bst t \<Longrightarrow> (a, p) \<in> set (nodes t) \<Longrightarrow> \<exists>l r h. lookup t (fst p) = Entry a p l r h"
  by (induction t) (auto simp: keys_def)

lemma node_at_in_nodes:
  assumes "bst t" "distinct (addrs t)" "(a, p) \<in> set (nodes t)"
  shows "\<exists>l r h. node_at a t = Entry a p l r h \<and> lookup t (fst p) = Entry a p l r h"
proof -
  from in_nodes_lookup[OF assms(1,3)] obtain l r h where lk: "lookup t (fst p) = Entry a p l r h"
    by blast
  from node_at_lookup[OF assms(2) lk] lk show ?thesis by blast
qed

text \<open>What the sequence after a removal holds.\<close>

lemma filter_keys_lt:
  "\<forall>x \<in> set xs. fst (snd x) < k \<Longrightarrow> filter (\<lambda>x. fst (snd x) \<noteq> (k::'k::linorder)) xs = xs"
  by (induction xs) auto

lemma filter_keys_gt:
  "\<forall>x \<in> set xs. k < fst (snd x) \<Longrightarrow> filter (\<lambda>x. fst (snd x) \<noteq> (k::'k::linorder)) xs = xs"
  by (induction xs) auto

lemma bst_nodes_bounds:
  "bst (Entry a q l r h) \<Longrightarrow>
   (\<forall>x \<in> set (nodes l). fst (snd x) < fst q) \<and> (\<forall>x \<in> set (nodes r). fst q < fst (snd x))"
  by (auto simp: keys_def)

lemma erase_nodes_entries:
  "bst t \<Longrightarrow> map snd (erase_nodes t k) = filter (\<lambda>p. fst p \<noteq> k) (entries t)"
proof (induction t)
  case nullptr
  then show ?case by (simp add: entries_def)
next
  case (Entry a q l r h)
  from bst_nodes_bounds[OF Entry.prems]
  have lo: "\<forall>x \<in> set (nodes l). fst (snd x) < fst q" and hi: "\<forall>x \<in> set (nodes r). fst q < fst (snd x)"
    by blast+
  from Entry.prems have bl: "bst l" and br: "bst r" by auto
  consider (lt) "k < fst q" | (gt) "fst q < k" | (eq) "fst q = k" by force
  then show ?case
  proof cases
    case lt
    with hi have "\<forall>x \<in> set (nodes r). k < fst (snd x)" by auto
    then have "filter (\<lambda>x. fst (snd x) \<noteq> k) (nodes r) = nodes r" by (rule filter_keys_gt)
    with lt Entry.IH(1)[OF bl] show ?thesis
      by (simp add: entries_def filter_map comp_def)
  next
    case gt
    then have nlt: "\<not> k < fst q" by simp
    from gt lo have "\<forall>x \<in> set (nodes l). fst (snd x) < k" by auto
    then have "filter (\<lambda>x. fst (snd x) \<noteq> k) (nodes l) = nodes l" by (rule filter_keys_lt)
    with gt nlt Entry.IH(2)[OF br] show ?thesis
      by (simp add: entries_def filter_map comp_def)
  next
    case eq
    from lo eq have "filter (\<lambda>x. fst (snd x) \<noteq> k) (nodes l) = nodes l"
      by (intro filter_keys_lt) auto
    moreover from hi eq have "filter (\<lambda>x. fst (snd x) \<noteq> k) (nodes r) = nodes r"
      by (intro filter_keys_gt) auto
    moreover have "r \<noteq> nullptr \<Longrightarrow> snd (hd (nodes r)) # map snd (tl (nodes r)) = map snd (nodes r)"
      by (cases "nodes r") auto
    ultimately show ?thesis using eq
      by (auto simp: entries_def filter_map comp_def)
  qed
qed

lemma erase_nodes_addrs_subset: "set (map fst (erase_nodes t k)) \<subseteq> set (addrs t)"
proof (induction t)
  case nullptr
  then show ?case by simp
next
  case (Entry a q l r h)
  have "set (map fst (tl (nodes r))) \<subseteq> set (addrs r)"
    by (cases "nodes r") (auto simp: addrs_def)
  with Entry.IH show ?case by (auto simp: addrs_def)
qed

lemma erase_nodes_length:
  "bst t \<Longrightarrow> k \<in> set (keys t) \<Longrightarrow> Suc (length (erase_nodes t k)) = length (nodes t)"
proof (induction t)
  case nullptr
  then show ?case by simp
next
  case (Entry a q l r h)
  have "r \<noteq> nullptr \<Longrightarrow> Suc (length (tl (nodes r))) = length (nodes r)"
    by (cases "nodes r") auto
  with Entry show ?case by (auto simp: keys_def)
qed

lemma erase_nodes_addrs_distinct:
  "distinct (addrs t) \<Longrightarrow> distinct (map fst (erase_nodes t k))"
proof (induction t)
  case nullptr
  then show ?case by simp
next
  case (Entry a q l r h)
  let ?L = "map fst (nodes l)" and ?R = "map fst (nodes r)"
  let ?tl = "map fst (tl (nodes r))"
  let ?el = "map fst (erase_nodes l k)"
  let ?er = "map fst (erase_nodes r k)"
  from Entry.prems have dl: "distinct ?L" and dr: "distinct ?R"
    and al: "a \<notin> set ?L" and ar: "a \<notin> set ?R"
    and disj: "set ?L \<inter> set ?R = {}" by (auto simp: addrs_def)
  have sub: "set ?tl \<subseteq> set ?R"
    by (cases "nodes r") auto
  have dtl: "distinct ?tl" using dr
    by (cases "nodes r") auto
  have sl: "set ?el \<subseteq> set ?L" using erase_nodes_addrs_subset[of l k] by (simp add: addrs_def)
  have sr: "set ?er \<subseteq> set ?R" using erase_nodes_addrs_subset[of r k] by (simp add: addrs_def)
  have del: "distinct ?el" using Entry.IH(1) dl by (simp add: addrs_def)
  have der: "distinct ?er" using Entry.IH(2) dr by (simp add: addrs_def)
  have i1: "set ?el \<inter> set ?R = {}" using sl disj by blast
  have i2: "set ?L \<inter> set ?er = {}" using sr disj by blast
  have i3: "set ?L \<inter> set ?tl = {}" using sub disj by blast
  have a1: "a \<notin> set ?el" using sl al by blast
  have a2: "a \<notin> set ?er" using sr ar by blast
  have a3: "a \<notin> set ?tl" using sub ar by blast
  have c1: "distinct (?el @ a # ?R)" using del dr ar a1 i1 by simp
  have c2: "distinct (?L @ a # ?er)" using dl der al a2 i2 by simp
  have c3: "distinct (?L @ a # ?tl)" using dl dtl al a3 i3 by simp
  show ?case using c1 c2 c3 dl dr by simp
qed

subsection \<open>The invariants under \<open>emplace\<close> and \<open>RemoveRecursive\<close>\<close>

lemma node_at_in_set: "node_at x t = Entry a p l r h \<Longrightarrow> (a, p) \<in> set (nodes t)"
  by (induction t) (auto split: if_splits Entry.splits)

lemma map_fst_ins_node: "set (map fst (ins_node x xs)) = insert (fst x) (set (map fst xs))"
  by (induction xs) auto

lemma distinct_ins_node:
  "distinct (map fst xs) \<Longrightarrow> fst x \<notin> set (map fst xs) \<Longrightarrow> distinct (map fst (ins_node x xs))"
  by (induction xs) auto

lemma curr_iterator_of [simp]: "curr' (iterator_of this e) = ptr e"
  by (simp add: iterator_of_def)

lemma curr_Map_end [simp]: "curr' (Map_end this) = None"
  by (simp add: Map_end_def)

lemma ptr_None_iff [simp]: "ptr e = None \<longleftrightarrow> e = nullptr"
  by (cases e) auto

lemma Map_find_end_iff:
  "bst (root' m) \<Longrightarrow> iterator_eq (Map_find this m k) (Map_end this) \<longleftrightarrow> k \<notin> set (keys (root' m))"
  by (simp add: iterator_eq_def Map_find_def find_loop_lookup lookup_nullptr_iff)

lemma InsertRecursive_inv:
  assumes "avl t" "bst t" "distinct (addrs t)" "fst p \<notin> set (keys t)" "n \<notin> set (addrs t)"
  shows "avl (snd (InsertRecursive this n t p))"
    and "bst (snd (InsertRecursive this n t p))"
    and "distinct (addrs (snd (InsertRecursive this n t p)))"
    and "nodes (snd (InsertRecursive this n t p)) = ins_node (n, p) (nodes t)"
    and "num_nodes (snd (InsertRecursive this n t p)) = Suc (num_nodes t)"
proof -
  let ?t = "snd (InsertRecursive this n t p)"
  from InsertRecursive_avl[OF assms(1), of this n p]
  show a: "avl ?t" and n: "nodes ?t = ins_node (n, p) (nodes t)"
    by (simp_all add: insert_nodes_ins_node[OF assms(2,4)])
  from assms(2,4) have "sorted_wrt (<) (map (\<lambda>x. fst (snd x)) (ins_node (n, p) (nodes t)))"
    by (intro keys_ins_node_sorted) (simp_all add: bst_iff_sorted keys_def)
  then show "bst ?t" by (simp add: bst_iff_sorted keys_def n)
  from assms(3,5) show "distinct (addrs ?t)"
    by (simp add: addrs_def n distinct_ins_node)
  show "num_nodes ?t = Suc (num_nodes t)" by (simp add: num_nodes_length n)
qed

lemma Map_emplace_absent:
  assumes "bst (root' m)" "fst p \<notin> set (keys (root' m))"
  shows "Map_emplace this n m p =
           ((fst (InsertRecursive this n (root' m) p), True),
            \<lparr>root' = snd (InsertRecursive this n (root' m) p), size' = size' m + 1\<rparr>)"
  using Map_find_end_iff[OF assms(1), of this "fst p"] assms(2)
  by (simp add: Map_emplace_def Let_def)

lemma Map_emplace_present:
  assumes "bst (root' m)" "fst p \<in> set (keys (root' m))"
  shows "Map_emplace this n m p = ((Map_find this m (fst p), False), m)"
  using Map_find_end_iff[OF assms(1), of this "fst p"] assms(2)
  by (simp add: Map_emplace_def Let_def)

lemma num_nodes_bound:
  assumes "distinct (addrs t)" "0 \<notin> set (addrs t)"
  shows "num_nodes t < 2 ^ 64"
proof -
  have "num_nodes t = length (addrs t)" by (simp add: num_nodes_length addrs_def)
  also have "\<dots> = card (set (addrs t))" using assms(1) by (simp add: distinct_card)
  also have "\<dots> \<le> card (UNIV - {0 :: 64 word})" using assms(2) by (intro card_mono) auto
  also have "\<dots> = 2 ^ 64 - 1" by (simp add: card_Diff_singleton card_word)
  finally show ?thesis by simp
qed

lemma Map_inv_iff:
  assumes "Tree_inv (root' m)" "0 \<notin> set (addrs (root' m))"
  shows "Map_inv m \<longleftrightarrow> size' m = of_nat (num_nodes (root' m))"
proof -
  from assms have "distinct (addrs (root' m))" "0 \<notin> set (addrs (root' m))"
    by (simp_all add: Tree_inv_def)
  then have "num_nodes (root' m) < 2 ^ 64" by (rule num_nodes_bound)
  then have u: "unat (of_nat (num_nodes (root' m)) :: 64 word) = num_nodes (root' m)"
    by (simp add: unat_of_nat)
  show ?thesis
  proof
    assume "Map_inv m"
    then have "unat (size' m) = num_nodes (root' m)" by (simp add: Map_inv_def)
    then have "of_nat (unat (size' m)) = (of_nat (num_nodes (root' m)) :: 64 word)" by simp
    then show "size' m = of_nat (num_nodes (root' m))" by simp
  next
    assume "size' m = of_nat (num_nodes (root' m))"
    with u assms show "Map_inv m" by (simp add: Map_inv_def)
  qed
qed

lemma Map_emplace_tree_inv:
  assumes "Tree_inv (root' m)" "n \<notin> set (addrs (root' m))"
  shows "Tree_inv (root' (snd (Map_emplace this n m p)))"
    and "set (addrs (root' (snd (Map_emplace this n m p)))) \<subseteq> insert n (set (addrs (root' m)))"
proof -
  from assms(1) have b: "bst (root' m)" and a: "avl (root' m)" and d: "distinct (addrs (root' m))"
    by (simp_all add: Tree_inv_def)
  show "Tree_inv (root' (snd (Map_emplace this n m p)))"
  proof (cases "fst p \<in> set (keys (root' m))")
    case True
    with assms(1) show ?thesis by (simp add: Map_emplace_present[OF b])
  next
    case False
    note ir = InsertRecursive_inv[OF a b d False assms(2), of this]
    from ir(1-3) show ?thesis by (simp add: Map_emplace_absent[OF b False] Tree_inv_def)
  qed
  show "set (addrs (root' (snd (Map_emplace this n m p)))) \<subseteq> insert n (set (addrs (root' m)))"
  proof (cases "fst p \<in> set (keys (root' m))")
    case True
    then show ?thesis by (auto simp: Map_emplace_present[OF b])
  next
    case False
    note ir = InsertRecursive_inv[OF a b d False assms(2), of this]
    from ir(4) have "set (addrs (snd (InsertRecursive this n (root' m) p))) = insert n (set (addrs (root' m)))"
      by (simp add: addrs_def)
    then show ?thesis by (simp add: Map_emplace_absent[OF b False])
  qed
qed

lemma Map_emplace_size:
  assumes "Tree_inv (root' m)" "n \<notin> set (addrs (root' m))"
    and "size' m = of_nat (num_nodes (root' m))"
  shows "size' (snd (Map_emplace this n m p)) = of_nat (num_nodes (root' (snd (Map_emplace this n m p))))"
proof (cases "fst p \<in> set (keys (root' m))")
  case True
  from assms(1) have b: "bst (root' m)" by (simp add: Tree_inv_def)
  from assms(3) show ?thesis by (simp add: Map_emplace_present[OF b True])
next
  case False
  from assms(1) have b: "bst (root' m)" and a: "avl (root' m)" and d: "distinct (addrs (root' m))"
    by (simp_all add: Tree_inv_def)
  from InsertRecursive_inv(5)[OF a b d False assms(2), of this] assms(3)
  show ?thesis by (simp add: Map_emplace_absent[OF b False])
qed

lemma sorted_wrt_filter_keys:
  "sorted_wrt (<) (map fst xs) \<Longrightarrow> sorted_wrt (<) (map fst (filter P xs))"
  by (induction xs) auto

lemma RemoveRecursive_inv:
  assumes "avl t" "bst t" "distinct (addrs t)"
  shows "avl (snd (RemoveRecursive this rt t k))"
    and "bst (snd (RemoveRecursive this rt t k))"
    and "distinct (addrs (snd (RemoveRecursive this rt t k)))"
    and "entries (snd (RemoveRecursive this rt t k)) = filter (\<lambda>p. fst p \<noteq> k) (entries t)"
    and "k \<in> set (keys t) \<Longrightarrow> Suc (num_nodes (snd (RemoveRecursive this rt t k))) = num_nodes t"
    and "set (addrs (snd (RemoveRecursive this rt t k))) \<subseteq> set (addrs t)"
proof -
  let ?t = "snd (RemoveRecursive this rt t k)"
  from RemoveRecursive_avl[OF assms, where this = this and rt = rt and k = k]
  have a: "avl ?t" and n: "nodes ?t = erase_nodes t k" by simp_all
  show "avl ?t" by (rule a)
  show e: "entries ?t = filter (\<lambda>p. fst p \<noteq> k) (entries t)"
    using erase_nodes_entries[OF assms(2), of k] by (simp add: entries_def n)
  have kk: "keys u = map fst (entries u)" for u :: "('k, 'v) Entry"
    by (simp add: keys_def entries_def)
  from assms(2) have "sorted_wrt (<) (map fst (entries t))" by (simp add: bst_iff_sorted kk)
  then have "sorted_wrt (<) (map fst (filter (\<lambda>p. fst p \<noteq> k) (entries t)))"
    by (rule sorted_wrt_filter_keys)
  then show "bst ?t" unfolding bst_iff_sorted kk e .
  show "distinct (addrs ?t)"
    using erase_nodes_addrs_distinct[OF assms(3), of k] by (simp add: addrs_def n)
  show "k \<in> set (keys t) \<Longrightarrow> Suc (num_nodes ?t) = num_nodes t"
    using erase_nodes_length[OF assms(2), of k] by (simp add: num_nodes_length n)
  show "set (addrs ?t) \<subseteq> set (addrs t)"
    using erase_nodes_addrs_subset[of t k] by (simp add: addrs_def n)
qed

lemma RemoveRecursive_tree_inv:
  assumes "Tree_inv t"
  shows "Tree_inv (snd (RemoveRecursive this rt t k))"
    and "set (addrs (snd (RemoveRecursive this rt t k))) \<subseteq> set (addrs t)"
proof -
  from assms have b: "bst t" and a: "avl t" and d: "distinct (addrs t)"
    by (simp_all add: Tree_inv_def)
  note rr = RemoveRecursive_inv[OF a b d, where this = this and rt = rt and k = k]
  from rr(1-3) show "Tree_inv (snd (RemoveRecursive this rt t k))" by (simp add: Tree_inv_def)
  from rr(6) show "set (addrs (snd (RemoveRecursive this rt t k))) \<subseteq> set (addrs t)" .
qed

text \<open>Removing a key the tree does not hold leaves the tree as it was.\<close>

lemma erase_nodes_absent: "bst t \<Longrightarrow> k \<notin> set (keys t) \<Longrightarrow> erase_nodes t k = nodes t"
  by (induction t) auto

lemma RemoveRecursive_absent_nodes:
  assumes "Tree_inv t" "k \<notin> set (keys t)"
  shows "nodes (snd (RemoveRecursive this rt t k)) = nodes t"
proof -
  from assms(1) have b: "bst t" and a: "avl t" and d: "distinct (addrs t)"
    by (simp_all add: Tree_inv_def)
  from RemoveRecursive_avl[OF a b d, where this = this and rt = rt and k = k]
    erase_nodes_absent[OF b assms(2)] show ?thesis by simp
qed

subsection \<open>The in-order successor\<close>

lemma nodes_above_append [simp]: "nodes_above k (xs @ ys) = nodes_above k xs @ nodes_above k ys"
  by (simp add: nodes_above_def)

lemma nodes_above_Cons [simp]:
  "nodes_above k (x # xs) = (if k < fst (snd x) then x # nodes_above k xs else nodes_above k xs)"
  by (simp add: nodes_above_def)

lemma nodes_above_Nil [simp]: "nodes_above k [] = []"
  by (simp add: nodes_above_def)

lemma nodes_above_none:
  "\<forall>x \<in> set xs. fst (snd x) < q \<Longrightarrow> q \<le> k \<Longrightarrow> nodes_above k xs = []"
  by (induction xs) auto

lemma nodes_above_all:
  "\<forall>x \<in> set xs. q < fst (snd x) \<Longrightarrow> k \<le> q \<Longrightarrow> nodes_above k xs = xs"
  by (induction xs) auto

lemma nodes_above_subset: "set (nodes_above k xs) \<subseteq> set xs"
  by (simp add: nodes_above_def)

lemma InOrderSuccessor_loop_ptr:
  assumes "bst t" "lookup t k = nullptr \<or> right (lookup t k) = nullptr"
  shows "ptr (InOrderSuccessor_loop t k s) =
           (case nodes_above k (nodes t) of [] \<Rightarrow> ptr s | y # ys \<Rightarrow> Some (fst y))"
  using assms
proof (induction t arbitrary: s)
  case nullptr
  then show ?case by simp
next
  case (Entry a q l r h)
  from bst_nodes_bounds[OF Entry.prems(1)]
  have lo: "\<forall>x \<in> set (nodes l). fst (snd x) < fst q" and hi: "\<forall>x \<in> set (nodes r). fst q < fst (snd x)"
    by blast+
  from Entry.prems(1) have bl: "bst l" and br: "bst r" by auto
  consider (lt) "k < fst q" | (gt) "fst q < k" | (eq) "fst q = k" by force
  then show ?case
  proof cases
    case lt
    then have "nodes_above k (nodes r) = nodes r" using hi by (intro nodes_above_all[of _ "fst q"]) auto
    moreover from lt Entry.prems(2) have "lookup l k = nullptr \<or> right (lookup l k) = nullptr" by simp
    note Entry.IH(1)[OF bl this, of "Entry a q l r h"]
    ultimately show ?thesis using lt by (simp add: Let_def split: list.splits)
  next
    case gt
    then have nlt: "\<not> k < fst q" by simp
    from gt have "nodes_above k (nodes l) = []" using lo by (intro nodes_above_none[of _ "fst q"]) auto
    moreover from gt nlt Entry.prems(2) have "lookup r k = nullptr \<or> right (lookup r k) = nullptr" by simp
    note Entry.IH(2)[OF br this, of s]
    ultimately show ?thesis using gt nlt by (simp add: Let_def)
  next
    case eq
    then have "nodes_above k (nodes l) = []" using lo by (intro nodes_above_none[of _ "fst q"]) auto
    moreover from eq Entry.prems(2) have "r = nullptr" by simp
    ultimately show ?thesis using eq by (simp add: Let_def)
  qed
qed

lemma nodes_above_lookup:
  assumes "bst t" "lookup t k = Entry a p l r h"
  shows "\<exists>rest. nodes_above k (nodes t) = nodes r @ rest"
  using assms
proof (induction t)
  case nullptr
  then show ?case by simp
next
  case (Entry b q tl tr th)
  from bst_nodes_bounds[OF Entry.prems(1)]
  have lo: "\<forall>x \<in> set (nodes tl). fst (snd x) < fst q" and hi: "\<forall>x \<in> set (nodes tr). fst q < fst (snd x)"
    by blast+
  from Entry.prems(1) have bl: "bst tl" and br: "bst tr" by auto
  consider (lt) "k < fst q" | (gt) "fst q < k" | (eq) "fst q = k" by force
  then show ?case
  proof cases
    case lt
    with Entry.prems(2) have "lookup tl k = Entry a p l r h" by simp
    from Entry.IH(1)[OF bl this] lt show ?thesis by auto
  next
    case gt
    then have nlt: "\<not> k < fst q" by simp
    from gt have "nodes_above k (nodes tl) = []" using lo by (intro nodes_above_none[of _ "fst q"]) auto
    moreover from gt nlt Entry.prems(2) have "lookup tr k = Entry a p l r h" by simp
    note Entry.IH(2)[OF br this]
    ultimately show ?thesis using gt nlt by auto
  next
    case eq
    then have "nodes_above k (nodes tl) = []" using lo by (intro nodes_above_none[of _ "fst q"]) auto
    moreover from eq have "nodes_above k (nodes tr) = nodes tr" using hi
      by (intro nodes_above_all[of _ "fst q"]) auto
    moreover from eq Entry.prems(2) have "tr = r" by simp
    ultimately show ?thesis using eq by simp
  qed
qed

lemma InOrderSuccessor_ptr:
  assumes "bst rt" "lookup rt k = Entry a p l r h"
  shows "ptr (InOrderSuccessor rt (Entry a p l r h)) =
           (case nodes_above k (nodes rt) of [] \<Rightarrow> None | y # ys \<Rightarrow> Some (fst y))"
proof (cases "r = nullptr")
  case True
  from lookup_key[OF assms(2)] have k: "fst p = k" .
  from assms(2) True have "lookup rt k = nullptr \<or> right (lookup rt k) = nullptr" by simp
  from InOrderSuccessor_loop_ptr[OF assms(1) this, of nullptr] True k show ?thesis
    by (simp split: list.splits)
next
  case False
  from nodes_above_lookup[OF assms] obtain rest where ab: "nodes_above k (nodes rt) = nodes r @ rest"
    by blast
  from False obtain y ys where n: "nodes r = y # ys" by (cases "nodes r") auto
  from GetMinEntry_hd[OF False] n have "addr (GetMinEntry r) = fst y" "GetMinEntry r \<noteq> nullptr"
    by (auto simp: prod_eq_iff)
  then have "ptr (GetMinEntry r) = Some (fst y)" by (cases "GetMinEntry r") auto
  with False ab n show ?thesis by simp
qed

lemma RemoveRecursive_iterator:
  "fst (RemoveRecursive this rt t k) =
     (case lookup t k of
        nullptr \<Rightarrow> Map_end this
      | Entry a p l r h \<Rightarrow>
          if l \<noteq> nullptr \<and> r \<noteq> nullptr then \<lparr>curr' = Some a, map' = this\<rparr>
          else iterator_of this (InOrderSuccessor rt (Entry a p l r h)))"
proof (induction this rt t k rule: RemoveRecursive.induct)
  case (1 this rt k)
  show ?case by simp
next
  case (2 this rt a q l r h k)
  consider (lt) "k < fst q" | (gt) "fst q < k" | (eq) "fst q = k" by force
  then show ?case
  proof cases
    case lt
    with "2.IH"(1)[OF refl] show ?thesis by (simp add: Let_def)
  next
    case gt
    then have nlt: "\<not> k < fst q" by simp
    with gt "2.IH"(2)[OF refl] show ?thesis by (simp add: Let_def)
  next
    case eq
    then show ?thesis by (simp add: Let_def iterator_of_def)
  qed
qed

declare InOrderSuccessor.simps [simp del]

subsection \<open>\<open>erase\<close> and \<open>clear\<close>\<close>

lemma iterator_deref_Some:
  "iterator_deref m it = Some p \<Longrightarrow>
   \<exists>a l r h. curr' it = Some a \<and> node_at a (root' m) = Entry a p l r h"
  by (auto simp: iterator_deref_def split: option.splits Entry.splits dest: node_at_addr)

lemma in_nodes_key: "(a, p) \<in> set (nodes t) \<Longrightarrow> fst p \<in> set (keys t)"
  by (force simp: keys_def)

lemma Map_erase_end: "iterator_eq it (Map_end this) \<Longrightarrow> Map_erase this m it foreign = Some (it, m)"
  by (simp add: Map_erase_def)

lemma Map_erase_at:
  assumes "curr' it = Some a" "node_at a (root' m) = Entry a p l r h"
  shows "Map_erase this m it foreign =
           Some (fst (RemoveRecursive this (root' m) (root' m) (fst p)),
                 \<lparr>root' = snd (RemoveRecursive this (root' m) (root' m) (fst p)), size' = size' m - 1\<rparr>)"
  using assms by (simp add: Map_erase_def iterator_eq_def iterator_deref_def Let_def)

text \<open>
  An iterator that points to no node of the map makes \<open>erase\<close> read the node of another
  map it points to.
\<close>

lemma Map_erase_foreign:
  assumes "curr' it = Some a" "a \<notin> set (addrs (root' m))"
  shows "Map_erase this m it (Some p) =
           Some (fst (RemoveRecursive this (root' m) (root' m) (fst p)),
                 \<lparr>root' = snd (RemoveRecursive this (root' m) (root' m) (fst p)), size' = size' m - 1\<rparr>)"
  using assms node_at_absent[OF assms(2)]
  by (simp add: Map_erase_def iterator_eq_def iterator_deref_def Let_def)

text \<open>
  When the key read through such an iterator is not in the map, no node is removed and
  \<open>size_\<close> is decremented all the same.
\<close>

lemma Map_erase_foreign_absent:
  assumes "Tree_inv (root' m)" "curr' it = Some a" "a \<notin> set (addrs (root' m))"
    and "fst p \<notin> set (keys (root' m))"
  shows "\<exists>it2 m2. Map_erase this m it (Some p) = Some (it2, m2) \<and>
           nodes (root' m2) = nodes (root' m) \<and> size' m2 = size' m - 1"
  using Map_erase_foreign[OF assms(2,3), of this p]
    RemoveRecursive_absent_nodes[OF assms(1,4), of this "root' m"]
  by simp

lemma Map_erase_cases:
  assumes "Map_erase this m it foreign = Some (it2, m2)"
  shows "(iterator_eq it (Map_end this) \<and> it2 = it \<and> m2 = m) \<or>
         (\<not> iterator_eq it (Map_end this) \<and>
          (\<exists>del. (case iterator_deref m it of Some p \<Rightarrow> Some p | None \<Rightarrow> foreign) = Some del \<and>
             it2 = fst (RemoveRecursive this (root' m) (root' m) (fst del)) \<and>
             m2 = \<lparr>root' = snd (RemoveRecursive this (root' m) (root' m) (fst del)),
                   size' = size' m - 1\<rparr>))"
  using assms by (auto simp: Map_erase_def Let_def split: if_splits option.splits)

lemma Map_erase_tree_inv:
  assumes "Tree_inv (root' m)" "Map_erase this m it foreign = Some (it2, m2)"
  shows "Tree_inv (root' m2)"
  using Map_erase_cases[OF assms(2)] assms(1)
  by (auto intro: RemoveRecursive_tree_inv(1))

lemma Map_erase_addrs:
  assumes "Tree_inv (root' m)" "Map_erase this m it foreign = Some (it2, m2)"
  shows "set (addrs (root' m2)) \<subseteq> set (addrs (root' m))"
proof -
  from Map_erase_cases[OF assms(2)]
  have "m2 = m \<or> (\<exists>k. root' m2 = snd (RemoveRecursive this (root' m) (root' m) k))" by auto
  then show ?thesis
  proof
    assume "m2 = m"
    then show ?thesis by simp
  next
    assume "\<exists>k. root' m2 = snd (RemoveRecursive this (root' m) (root' m) k)"
    then obtain k where "root' m2 = snd (RemoveRecursive this (root' m) (root' m) k)" ..
    with RemoveRecursive_tree_inv(2)[OF assms(1), of this "root' m" k] show ?thesis by simp
  qed
qed

text \<open>The key \<open>erase\<close> reads through an iterator, when there is one to read.\<close>

lemma word_pred_of_nat: "Suc n = k \<Longrightarrow> (of_nat k :: 64 word) - 1 = of_nat n"
  by auto

lemma Map_erase_size:
  assumes "Tree_inv (root' m)" "size' m = of_nat (num_nodes (root' m))"
    and "Map_erase this m it foreign = Some (it2, m2)"
    and "curr' it = None \<or>
         (\<exists>del. (case iterator_deref m it of Some p \<Rightarrow> Some p | None \<Rightarrow> foreign) = Some del \<and>
                fst del \<in> set (keys (root' m)))"
  shows "size' m2 = of_nat (num_nodes (root' m2))"
proof -
  from assms(1) have b: "bst (root' m)" and av: "avl (root' m)" and di: "distinct (addrs (root' m))"
    by (simp_all add: Tree_inv_def)
  from Map_erase_cases[OF assms(3)] show ?thesis
  proof
    assume "iterator_eq it (Map_end this) \<and> it2 = it \<and> m2 = m"
    with assms(2) show ?thesis by simp
  next
    assume c: "\<not> iterator_eq it (Map_end this) \<and>
          (\<exists>del. (case iterator_deref m it of Some p \<Rightarrow> Some p | None \<Rightarrow> foreign) = Some del \<and>
             it2 = fst (RemoveRecursive this (root' m) (root' m) (fst del)) \<and>
             m2 = \<lparr>root' = snd (RemoveRecursive this (root' m) (root' m) (fst del)),
                   size' = size' m - 1\<rparr>)"
    then obtain del where r: "(case iterator_deref m it of Some p \<Rightarrow> Some p | None \<Rightarrow> foreign) = Some del"
      and m2: "m2 = \<lparr>root' = snd (RemoveRecursive this (root' m) (root' m) (fst del)),
                   size' = size' m - 1\<rparr>" by blast
    from c have "curr' it \<noteq> None" by (simp add: iterator_eq_def)
    with assms(4) r have k: "fst del \<in> set (keys (root' m))" by auto
    from RemoveRecursive_inv(5)[OF av b di k, where this = this and rt = "root' m"]
    have "Suc (num_nodes (root' m2)) = num_nodes (root' m)" by (simp add: m2)
    from word_pred_of_nat[OF this] assms(2) show ?thesis by (simp add: m2)
  qed
qed

lemma lookup_GetMinEntry:
  "bst t \<Longrightarrow> t \<noteq> nullptr \<Longrightarrow> lookup t (fst (pair (GetMinEntry t))) = GetMinEntry t"
proof (induction t)
  case nullptr
  then show ?case by simp
next
  case (Entry a q l r h)
  show ?case
  proof (cases "l = nullptr")
    case True
    then show ?thesis by simp
  next
    case False
    from GetMinEntry_hd[OF False] have "(addr (GetMinEntry l), pair (GetMinEntry l)) \<in> set (nodes l)"
      using False by (cases "nodes l") auto
    then have "fst (pair (GetMinEntry l)) \<in> set (keys l)" by (rule in_nodes_key)
    with Entry.prems have "fst (pair (GetMinEntry l)) < fst q" by simp
    with Entry.IH(1) Entry.prems False show ?thesis by simp
  qed
qed

lemma nodes_above_hd:
  assumes "sorted_wrt (<) (map (\<lambda>x. fst (snd x)) (y # ys))"
  shows "nodes_above (fst (snd y)) (y # ys) = ys"
proof -
  from assms have "\<forall>x \<in> set ys. fst (snd y) < fst (snd x)" by simp
  then have "nodes_above (fst (snd y)) ys = ys" by (rule nodes_above_all) simp
  then show ?thesis by simp
qed

text \<open>Erasing at \<open>begin()\<close> yields the map without its first node and \<open>begin()\<close> of it.\<close>

lemma Map_erase_begin:
  assumes "Tree_inv (root' m)" "root' m \<noteq> nullptr" "curr' it = ptr (GetMinEntry (root' m))"
  shows "\<exists>it2 m2. Map_erase this m it foreign = Some (it2, m2) \<and> Tree_inv (root' m2) \<and>
           nodes (root' m2) = tl (nodes (root' m)) \<and> size' m2 = size' m - 1 \<and>
           curr' it2 = ptr (GetMinEntry (root' m2))"
proof -
  let ?rt = "root' m"
  from assms(1) have b: "bst ?rt" and av: "avl ?rt" and di: "distinct (addrs ?rt)"
    by (simp_all add: Tree_inv_def)
  from GetMinEntry_hd[OF assms(2)] obtain a p r h where g: "GetMinEntry ?rt = Entry a p nullptr r h"
    and hd: "hd (nodes ?rt) = (a, p)"
    by (cases "GetMinEntry ?rt") auto
  from assms(2) hd obtain rest where ns: "nodes ?rt = (a, p) # rest" by (cases "nodes ?rt") auto
  from lookup_GetMinEntry[OF b assms(2)] g have lk: "lookup ?rt (fst p) = Entry a p nullptr r h"
    by simp
  from node_at_lookup[OF di lk] have na: "node_at a ?rt = Entry a p nullptr r h" .
  from assms(3) g have c: "curr' it = Some a" by simp
  let ?rr = "RemoveRecursive this ?rt ?rt (fst p)"
  let ?m2 = "\<lparr>root' = snd ?rr, size' = size' m - 1\<rparr>"
  have e: "Map_erase this m it foreign = Some (fst ?rr, ?m2)" by (rule Map_erase_at[OF c na])
  from Map_erase_tree_inv[OF assms(1) e] have inv2: "Tree_inv (root' ?m2)" .
  from RemoveRecursive_avl[OF av b di, where this = this and rt = ?rt and k = "fst p"]
  have "nodes (snd ?rr) = erase_nodes ?rt (fst p)" by simp
  also have "\<dots> = tl (nodes ?rt)" using erase_nodes_min[OF b assms(2)] hd by simp
  finally have n2: "nodes (snd ?rr) = rest" using ns by simp
  from b have "sorted_wrt (<) (map (\<lambda>x. fst (snd x)) ((a, p) # rest))"
    by (simp add: bst_iff_sorted keys_def ns)
  from nodes_above_hd[OF this] have ab: "nodes_above (fst p) (nodes ?rt) = rest" by (simp add: ns)
  have "curr' (fst ?rr) = ptr (InOrderSuccessor ?rt (Entry a p nullptr r h))"
    by (simp add: RemoveRecursive_iterator lk)
  also have "\<dots> = (case rest of [] \<Rightarrow> None | y # ys \<Rightarrow> Some (fst y))"
    by (simp add: InOrderSuccessor_ptr[OF b lk] ab)
  also have "\<dots> = ptr (GetMinEntry (snd ?rr))"
  proof (cases rest)
    case Nil
    with n2 have "snd ?rr = nullptr" by simp
    with Nil show ?thesis by simp
  next
    case (Cons y ys)
    with n2 have ne: "snd ?rr \<noteq> nullptr" by auto
    from GetMinEntry_hd[OF ne] n2 Cons show ?thesis
      by (cases "GetMinEntry (snd ?rr)") (auto simp: prod_eq_iff)
  qed
  finally have "curr' (fst ?rr) = ptr (GetMinEntry (root' ?m2))" by simp
  with e inv2 n2 ns show ?thesis by simp
qed

lemma clear_loop_total:
  assumes "Tree_inv (root' m)" "curr' it = ptr (GetMinEntry (root' m))"
  shows "clear_loop this m it =
           Some \<lparr>root' = nullptr, size' = size' m - of_nat (length (nodes (root' m)))\<rparr>"
  using assms
proof (induction "length (nodes (root' m))" arbitrary: m it)
  case 0
  then have "root' m = nullptr" by simp
  then have "m = \<lparr>root' = nullptr, size' = size' m\<rparr>" by (cases m) simp
  with 0 show ?case by (subst clear_loop.simps) (simp add: Map_empty_def)
next
  case (Suc n)
  then have ne: "root' m \<noteq> nullptr" by auto
  from Map_erase_begin[OF Suc.prems(1) ne Suc.prems(2), of this None]
  obtain it2 m2 where e: "Map_erase this m it None = Some (it2, m2)" and inv2: "Tree_inv (root' m2)"
    and n2: "nodes (root' m2) = tl (nodes (root' m))"
    and s2: "size' m2 = size' m - 1"
    and c2: "curr' it2 = ptr (GetMinEntry (root' m2))" by blast
  from n2 Suc.hyps(2) have l: "n = length (nodes (root' m2))" by simp
  from Suc.hyps(1)[OF l inv2 c2] e ne l[symmetric] s2 Suc.hyps(2)[symmetric] show ?case
    by (subst clear_loop.simps) (simp add: Map_empty_def)
qed

lemma Map_clear_total:
  "Tree_inv (root' m) \<Longrightarrow>
   Map_clear this m = Some \<lparr>root' = nullptr, size' = size' m - of_nat (num_nodes (root' m))\<rparr>"
  by (simp add: Map_clear_def clear_loop_total Map_begin_def num_nodes_length)

subsection \<open>Sequences of operations\<close>

lemma Tree_inv_nullptr: "Tree_inv nullptr"
  by (simp add: Tree_inv_def addrs_def)

lemma Map_ctor_inv: "Map_inv Map_ctor"
  by (simp add: Map_inv_def Map_ctor_def Tree_inv_nullptr)

lemma Map_ctor_tree_inv: "Tree_inv (root' Map_ctor)"
  by (simp add: Map_ctor_def Tree_inv_nullptr)

lemma Map_subscript_snd:
  "snd (Map_subscript this n T0 m k) = snd (Map_emplace this n m (k, T0))"
  by (simp add: Map_subscript_def Map_emplace_def Let_def)

lemma Map_emplace_inv:
  assumes "Map_inv m" "0 \<notin> set (addrs (root' m))" "n \<notin> set (addrs (root' m))" "n \<noteq> 0"
  shows "Map_inv (snd (Map_emplace this n m p))"
    and "0 \<notin> set (addrs (root' (snd (Map_emplace this n m p))))"
proof -
  from assms(1) have t: "Tree_inv (root' m)" by (simp add: Map_inv_def)
  from assms(1) have s: "size' m = of_nat (num_nodes (root' m))"
    by (simp add: Map_inv_iff[OF t assms(2)])
  note e = Map_emplace_tree_inv[OF t assms(3), of this p]
  from e(2) assms(2,4) show z: "0 \<notin> set (addrs (root' (snd (Map_emplace this n m p))))"
    by auto
  from Map_emplace_size[OF t assms(3) s] show "Map_inv (snd (Map_emplace this n m p))"
    by (simp add: Map_inv_iff[OF e(1) z])
qed

lemma own_iterator_deref:
  assumes "Tree_inv (root' m)" "curr' it = Some a" "a \<in> set (addrs (root' m))"
  shows "\<exists>p. iterator_deref m it = Some p \<and> fst p \<in> set (keys (root' m))"
proof -
  from assms(1) have b: "bst (root' m)" and d: "distinct (addrs (root' m))"
    by (simp_all add: Tree_inv_def)
  from assms(3) obtain p where mem: "(a, p) \<in> set (nodes (root' m))" by (auto simp: addrs_def)
  from node_at_in_nodes[OF b d mem] obtain l r h where "node_at a (root' m) = Entry a p l r h"
    by blast
  with assms(2) have "iterator_deref m it = Some p" by (simp add: iterator_deref_def)
  with in_nodes_key[OF mem] show ?thesis by blast
qed

lemma Map_erase_inv:
  assumes "Map_inv m" "0 \<notin> set (addrs (root' m))" "own_iterator m it"
    and "Map_erase this m it foreign = Some (it2, m2)"
  shows "Map_inv m2" and "0 \<notin> set (addrs (root' m2))"
proof -
  from assms(1) have t: "Tree_inv (root' m)" by (simp add: Map_inv_def)
  from assms(1) have s: "size' m = of_nat (num_nodes (root' m))"
    by (simp add: Map_inv_iff[OF t assms(2)])
  from Map_erase_tree_inv[OF t assms(4)] have t2: "Tree_inv (root' m2)" .
  from Map_erase_addrs[OF t assms(4)] assms(2) show z: "0 \<notin> set (addrs (root' m2))" by auto
  have "curr' it = None \<or>
         (\<exists>del. (case iterator_deref m it of Some p \<Rightarrow> Some p | None \<Rightarrow> foreign) = Some del \<and>
                fst del \<in> set (keys (root' m)))"
  proof (cases "curr' it")
    case None
    then show ?thesis by simp
  next
    case (Some a)
    with assms(3) have "a \<in> set (addrs (root' m))" by (simp add: own_iterator_def)
    from own_iterator_deref[OF t Some this] show ?thesis by auto
  qed
  from Map_erase_size[OF t s assms(4) this] show "Map_inv m2" by (simp add: Map_inv_iff[OF t2 z])
qed

lemma Map_find_own:
  assumes "Tree_inv (root' m)"
  shows "own_iterator m (Map_find this m k)"
proof (cases "lookup (root' m) k")
  case nullptr
  then show ?thesis by (simp add: own_iterator_def Map_find_def find_loop_lookup)
next
  case (Entry a p l r h)
  from lookup_in_nodes[OF Entry] have "a \<in> set (addrs (root' m))" by (force simp: addrs_def)
  with Entry show ?thesis by (simp add: own_iterator_def Map_find_def find_loop_lookup)
qed

lemma Map_erase_key_cases:
  assumes "Map_erase_key this m k = Some (c, m2)"
  shows "m2 = m \<or> (\<exists>it2. Map_erase this m (Map_find this m k) None = Some (it2, m2))"
  using assms by (auto simp: Map_erase_key_def Let_def split: if_splits option.splits)

lemma Map_erase_key_tree_inv:
  assumes "Tree_inv (root' m)" "Map_erase_key this m k = Some (c, m2)"
  shows "Tree_inv (root' m2)"
  using Map_erase_key_cases[OF assms(2)] assms(1) by (auto intro: Map_erase_tree_inv)

lemma Map_erase_key_inv:
  assumes "Map_inv m" "0 \<notin> set (addrs (root' m))" "Map_erase_key this m k = Some (c, m2)"
  shows "Map_inv m2 \<and> 0 \<notin> set (addrs (root' m2))"
proof -
  from assms(1) have t: "Tree_inv (root' m)" by (simp add: Map_inv_def)
  from Map_erase_key_cases[OF assms(3)] show ?thesis
  proof
    assume "m2 = m"
    with assms(1,2) show ?thesis by simp
  next
    assume "\<exists>it2. Map_erase this m (Map_find this m k) None = Some (it2, m2)"
    then obtain it2 where "Map_erase this m (Map_find this m k) None = Some (it2, m2)" ..
    from Map_erase_inv[OF assms(1,2) Map_find_own[OF t] this] show ?thesis by simp
  qed
qed

text \<open>
  Every call, whatever iterator \<open>erase\<close> is given, leaves a balanced search tree of
  distinct nodes.
\<close>

lemma apply_operation_tree_inv:
  assumes "Tree_inv (root' m)" "apply_operation this T0 m x = Some m2"
  shows "Tree_inv (root' m2)"
proof (cases x)
  case (Emplace n p)
  with assms show ?thesis by (auto split: if_splits intro: Map_emplace_tree_inv(1))
next
  case (Insert n p)
  with assms show ?thesis
    by (auto simp: Map_insert_def split: if_splits intro: Map_emplace_tree_inv(1))
next
  case (Subscript n k)
  with assms show ?thesis
    by (auto simp: Map_subscript_snd split: if_splits intro: Map_emplace_tree_inv(1))
next
  case (EraseKey k)
  with assms obtain c where "Map_erase_key this m k = Some (c, m2)" by auto
  from Map_erase_key_tree_inv[OF assms(1) this] show ?thesis .
next
  case (EraseAt it foreign)
  with assms obtain it2 where "Map_erase this m it foreign = Some (it2, m2)" by auto
  from Map_erase_tree_inv[OF assms(1) this] show ?thesis .
next
  case Clear
  with assms Map_clear_total[OF assms(1), of this] show ?thesis
    by (auto simp: Tree_inv_nullptr)
qed

lemma run_tree_inv:
  "Tree_inv (root' m) \<Longrightarrow> run this T0 m xs = Some m2 \<Longrightarrow> Tree_inv (root' m2)"
proof (induction xs arbitrary: m)
  case Nil
  then show ?case by simp
next
  case (Cons x xs)
  from Cons.prems(2) obtain m1 where a: "apply_operation this T0 m x = Some m1"
    and r: "run this T0 m1 xs = Some m2" by (auto split: option.splits)
  from Cons.IH[OF apply_operation_tree_inv[OF Cons.prems(1) a] r] show ?case .
qed

text \<open>
  A call that is given an iterator of the map, where it takes one, also keeps \<open>size_\<close>
  equal to the number of nodes; there are fewer than \<open>2 ^ 64\<close> nodes, none of them at
  the null address, so that the increment of \<open>size_\<close> does not wrap.
\<close>

lemma apply_operation_inv:
  assumes "Map_inv m" "0 \<notin> set (addrs (root' m))" "own_iterators m x"
    and "apply_operation this T0 m x = Some m2"
  shows "Map_inv m2 \<and> 0 \<notin> set (addrs (root' m2))"
proof (cases x)
  case (Emplace n p)
  with assms(4) have n: "n \<notin> set (addrs (root' m))" "n \<noteq> 0"
    and m2: "m2 = snd (Map_emplace this n m p)" by (auto split: if_splits)
  from Map_emplace_inv[OF assms(1,2) n, of this p] show ?thesis by (simp add: m2)
next
  case (Insert n p)
  with assms(4) have n: "n \<notin> set (addrs (root' m))" "n \<noteq> 0"
    and m2: "m2 = snd (Map_emplace this n m p)" by (auto simp: Map_insert_def split: if_splits)
  from Map_emplace_inv[OF assms(1,2) n, of this p] show ?thesis by (simp add: m2)
next
  case (Subscript n k)
  with assms(4) have n: "n \<notin> set (addrs (root' m))" "n \<noteq> 0"
    and m2: "m2 = snd (Map_emplace this n m (k, T0))"
    by (auto simp: Map_subscript_snd split: if_splits)
  from Map_emplace_inv[OF assms(1,2) n, of this "(k, T0)"] show ?thesis by (simp add: m2)
next
  case (EraseKey k)
  with assms obtain c where "Map_erase_key this m k = Some (c, m2)" by auto
  from Map_erase_key_inv[OF assms(1,2) this] show ?thesis .
next
  case (EraseAt it foreign)
  with assms obtain it2 where e: "Map_erase this m it foreign = Some (it2, m2)" by auto
  from EraseAt assms(3) have "own_iterator m it" by simp
  from Map_erase_inv[OF assms(1,2) this e] show ?thesis by simp
next
  case Clear
  from assms(1) have t: "Tree_inv (root' m)" by (simp add: Map_inv_def)
  from assms(1) have s: "size' m = of_nat (num_nodes (root' m))"
    by (simp add: Map_inv_iff[OF t assms(2)])
  from Clear assms(4) Map_clear_total[OF t, of this] s show ?thesis
    by (auto simp: Map_inv_def Tree_inv_nullptr addrs_def)
qed

lemma run_inv_nonnull:
  "Map_inv m \<Longrightarrow> 0 \<notin> set (addrs (root' m)) \<Longrightarrow> in_contract this T0 m xs \<Longrightarrow>
   run this T0 m xs = Some m2 \<Longrightarrow> Map_inv m2 \<and> 0 \<notin> set (addrs (root' m2))"
proof (induction xs arbitrary: m)
  case Nil
  then show ?case by simp
next
  case (Cons x xs)
  from Cons.prems(4) obtain m1 where a: "apply_operation this T0 m x = Some m1"
    and r: "run this T0 m1 xs = Some m2" by (auto split: option.splits)
  from Cons.prems(3) a have o: "own_iterators m x" and c: "in_contract this T0 m1 xs" by simp_all
  from apply_operation_inv[OF Cons.prems(1,2) o a]
  have i: "Map_inv m1" and z: "0 \<notin> set (addrs (root' m1))" by simp_all
  from Cons.IH[OF i z c r] show ?case .
qed

lemma run_inv:
  fixes m :: "('a::linorder, 'b) Map"
  assumes "in_contract this T0 Map_ctor xs" "run this T0 Map_ctor xs = Some m"
  shows "Map_inv m"
proof -
  have "0 \<notin> set (addrs (root' (Map_ctor :: ('a, 'b) Map)))" by (simp add: Map_ctor_def addrs_def)
  from run_inv_nonnull[OF Map_ctor_inv this assms(1) assms(2)] show ?thesis by simp
qed

lemma run_example: "run 10 [] Map_ctor example_ops = Some example_map"
  unfolding example_ops_def example_map_def by code_simp

lemma in_contract_example: "in_contract 10 [] Map_ctor example_ops"
  unfolding example_ops_def by code_simp

lemma run_other: "run 20 [] Map_ctor other_ops = Some other_map"
  unfolding other_ops_def other_map_def by code_simp

lemma in_contract_other: "in_contract 20 [] Map_ctor other_ops"
  unfolding other_ops_def by code_simp

text \<open>
  Claim C1. After every sequence of \<open>emplace\<close>, \<open>insert\<close>, \<open>operator[]\<close>,
  \<open>erase\<close> (by key or by iterator) and \<open>clear\<close> calls on a map that starts empty,
  the tree is a search tree at every node (all keys on the left are smaller than the
  node's key, all keys on the right greater) and balanced at every node (the heights of
  the two children differ by at most one, and the cached height is one more than the
  larger of them). This holds whatever iterator \<open>erase\<close> is given.
\<close>

theorem invariants_after_any_operations:
  assumes "run this T0 Map_ctor ops = Some m"
  shows "bst (root' m) \<and> avl (root' m)"
  using run_tree_inv[OF Map_ctor_tree_inv assms] by (simp add: Tree_inv_def)

theorem invariants_after_any_operations_witness:
  "run 10 [] Map_ctor example_ops = Some example_map \<and>
   bst (root' example_map) \<and> avl (root' example_map)"
  using run_example invariants_after_any_operations[OF run_example] by (rule conjI)

subsection \<open>Iteration and \<open>lower_bound\<close>\<close>

lemma nodes_above_mid:
  assumes "sorted_wrt (<) (map (\<lambda>x. fst (snd x)) (xs @ y # ys))"
  shows "nodes_above (fst (snd y)) (xs @ y # ys) = ys"
proof -
  from assms have "\<forall>x \<in> set xs. fst (snd x) < fst (snd y)"
    and "\<forall>x \<in> set ys. fst (snd y) < fst (snd x)"
    by (auto simp: sorted_wrt_append)
  then have "nodes_above (fst (snd y)) xs = []" "nodes_above (fst (snd y)) ys = ys"
    by (auto intro: nodes_above_none nodes_above_all)
  then show ?thesis by simp
qed

lemma InOrderSuccessor_next:
  assumes "bst rt" "distinct (addrs rt)" "nodes rt = xs @ (a, p) # ys"
  shows "\<exists>l r h. node_at a rt = Entry a p l r h \<and>
           ptr (InOrderSuccessor rt (Entry a p l r h)) = first_ptr ys"
proof -
  have "(a, p) \<in> set (nodes rt)" by (simp add: assms(3))
  from node_at_in_nodes[OF assms(1,2) this] obtain l r h
    where n: "node_at a rt = Entry a p l r h" and lk: "lookup rt (fst p) = Entry a p l r h"
    by blast
  from assms(1) have "sorted_wrt (<) (map (\<lambda>x. fst (snd x)) (xs @ (a, p) # ys))"
    by (simp add: bst_iff_sorted keys_def assms(3))
  from nodes_above_mid[OF this] have "nodes_above (fst p) (nodes rt) = ys"
    by (simp add: assms(3))
  with InOrderSuccessor_ptr[OF assms(1) lk]
  have "ptr (InOrderSuccessor rt (Entry a p l r h)) = first_ptr ys"
    by (cases ys) simp_all
  with n show ?thesis by blast
qed

lemma iterator_step:
  assumes "bst (root' m)" "distinct (addrs (root' m))" "nodes (root' m) = xs @ (a, p) # ys"
    and "curr' it = Some a"
  shows "iterator_deref m it = Some p"
    and "iterator_incr m it = Some (it\<lparr>curr' := first_ptr ys\<rparr>)"
proof -
  from InOrderSuccessor_next[OF assms(1-3)] obtain l r h
    where n: "node_at a (root' m) = Entry a p l r h"
      and s: "ptr (InOrderSuccessor (root' m) (Entry a p l r h)) = first_ptr ys" by blast
  from n assms(4) show "iterator_deref m it = Some p" by (simp add: iterator_deref_def)
  from n s assms(4) show "iterator_incr m it = Some (it\<lparr>curr' := first_ptr ys\<rparr>)"
    by (simp add: iterator_incr_def)
qed

lemma iterate_from:
  assumes "bst (root' m)" "distinct (addrs (root' m))" "nodes (root' m) = xs @ ys"
    and "curr' it = first_ptr ys" "curr' lst = None"
  shows "iterate m it lst = Some (map snd ys)"
  using assms(3,4)
proof (induction ys arbitrary: xs it)
  case Nil
  with assms(5) show ?case by (subst iterate.simps) (simp add: iterator_ne_def)
next
  case (Cons y ys)
  obtain a p where y: "y = (a, p)" by (cases y)
  from Cons.prems y have n: "nodes (root' m) = xs @ (a, p) # ys" and c: "curr' it = Some a"
    by simp_all
  note st = iterator_step[OF assms(1,2) n c]
  have "nodes (root' m) = (xs @ [y]) @ ys" by (simp add: n y)
  from Cons.IH[OF this, of "it\<lparr>curr' := first_ptr ys\<rparr>"]
  have "iterate m (it\<lparr>curr' := first_ptr ys\<rparr>) lst = Some (map snd ys)" by simp
  with st c assms(5) y show ?case
    by (subst iterate.simps) (simp add: iterator_ne_def)
qed

lemma first_ptr_GetMinEntry: "ptr (GetMinEntry t) = first_ptr (nodes t)"
proof (cases "t = nullptr")
  case True
  then show ?thesis by simp
next
  case False
  from GetMinEntry_hd[OF False] False show ?thesis
    by (cases "GetMinEntry t"; cases "nodes t") (auto simp: prod_eq_iff)
qed

lemma iterate_all:
  assumes "Tree_inv (root' m)"
  shows "iterate m (Map_begin this m) (Map_end this) = Some (entries (root' m))"
proof -
  from assms have b: "bst (root' m)" and d: "distinct (addrs (root' m))"
    by (simp_all add: Tree_inv_def)
  have "nodes (root' m) = [] @ nodes (root' m)" by simp
  from iterate_from[OF b d this, of "Map_begin this m" "Map_end this"]
  show ?thesis by (simp add: Map_begin_def first_ptr_GetMinEntry entries_def)
qed

lemma find_if_from:
  assumes "bst (root' m)" "distinct (addrs (root' m))" "nodes (root' m) = xs @ ys"
    and "curr' it = first_ptr ys" "curr' lst = None" "map' lst = map' it"
  shows "find_if m it lst P =
           Some \<lparr>curr' = first_ptr (dropWhile (\<lambda>y. \<not> P (snd y)) ys), map' = map' it\<rparr>"
  using assms(3,4,6)
proof (induction ys arbitrary: xs it)
  case Nil
  with assms(5) show ?case by (subst find_if.simps) (simp add: iterator_ne_def)
next
  case (Cons y ys)
  obtain a p where y: "y = (a, p)" by (cases y)
  from Cons.prems y have n: "nodes (root' m) = xs @ (a, p) # ys" and c: "curr' it = Some a"
    by simp_all
  note st = iterator_step[OF assms(1,2) n c]
  show ?case
  proof (cases "P p")
    case True
    with st c assms(5) y show ?thesis
      by (subst find_if.simps) (simp add: iterator_ne_def)
  next
    case False
    have "nodes (root' m) = (xs @ [y]) @ ys" by (simp add: n y)
    from Cons.IH[OF this, of "it\<lparr>curr' := first_ptr ys\<rparr>"] Cons.prems(3)
    have "find_if m (it\<lparr>curr' := first_ptr ys\<rparr>) lst P =
            Some \<lparr>curr' = first_ptr (dropWhile (\<lambda>y. \<not> P (snd y)) ys), map' = map' it\<rparr>" by simp
    with False st c assms(5) y show ?thesis
      by (subst find_if.simps) (simp add: iterator_ne_def)
  qed
qed

lemma lower_bound_descent_ptr:
  assumes "bst t"
  shows "ptr (lower_bound_descent t k c) =
           (case dropWhile (\<lambda>y. fst (snd y) < k) (nodes t) of [] \<Rightarrow> ptr c | y # ys \<Rightarrow> Some (fst y))"
  using assms
proof (induction t arbitrary: c)
  case nullptr
  then show ?case by simp
next
  case (Entry a q l r h)
  from bst_nodes_bounds[OF Entry.prems]
  have lo: "\<forall>x \<in> set (nodes l). fst (snd x) < fst q" and hi: "\<forall>x \<in> set (nodes r). fst q < fst (snd x)"
    by blast+
  from Entry.prems have bl: "bst l" and br: "bst r" by auto
  show ?case
  proof (cases "fst q < k")
    case True
    with lo have "\<forall>x \<in> set (nodes l). fst (snd x) < k" by auto
    then have "dropWhile (\<lambda>y. fst (snd y) < k) (nodes l @ (a, q) # nodes r) =
                 dropWhile (\<lambda>y. fst (snd y) < k) ((a, q) # nodes r)"
      by (simp add: dropWhile_append2)
    with True Entry.IH(2)[OF br, of c] show ?thesis by simp
  next
    case False
    show ?thesis
    proof (cases "\<forall>x \<in> set (nodes l). fst (snd x) < k")
      case True
      then have e1: "dropWhile (\<lambda>y. fst (snd y) < k) (nodes l) = []" by simp
      from True have e2: "dropWhile (\<lambda>y. fst (snd y) < k) (nodes l @ (a, q) # nodes r) =
                   dropWhile (\<lambda>y. fst (snd y) < k) ((a, q) # nodes r)"
        by (simp add: dropWhile_append2)
      from False Entry.IH(1)[OF bl, of "Entry a q l r h"] show ?thesis
        by (simp add: e1 e2)
    next
      case nall: False
      then obtain z zs where e1: "dropWhile (\<lambda>y. fst (snd y) < k) (nodes l) = z # zs"
        by (cases "dropWhile (\<lambda>y. fst (snd y) < k) (nodes l)") auto
      from nall have e2: "dropWhile (\<lambda>y. fst (snd y) < k) (nodes l @ (a, q) # nodes r) =
                   dropWhile (\<lambda>y. fst (snd y) < k) (nodes l) @ (a, q) # nodes r"
        by (auto simp: dropWhile_append1)
      from False Entry.IH(1)[OF bl, of "Entry a q l r h"] show ?thesis
        by (simp add: e2 e1)
    qed
  qed
qed

lemma example_map_inv: "Map_inv example_map"
  by (rule run_inv[OF in_contract_example run_example])

lemma example_tree_inv: "Tree_inv (root' example_map)"
  using example_map_inv by (simp add: Map_inv_def)

lemma other_map_inv: "Map_inv other_map"
  by (rule run_inv[OF in_contract_other run_other])

lemma entries_example:
  "entries (root' example_map) =
     [(1, ''a''), (4, ''d''), (6, []), (7, ''g''), (8, ''h''), (9, ''i'')]"
  by (simp add: example_map_def entries_def)

lemma sorted_entries: "bst t \<Longrightarrow> sorted_wrt (<) (map fst (entries t))"
  by (simp add: bst_iff_sorted keys_def entries_def comp_def)

lemma length_entries: "length (entries t) = num_nodes t"
  by (simp add: entries_def num_nodes_length)

lemma first_ptr_case: "(case xs of [] \<Rightarrow> None | y # ys \<Rightarrow> Some (fst y)) = first_ptr xs"
  by (cases xs) auto

text \<open>
  Claim C6. On a map whose tree satisfies the invariants, the loop from \<open>begin()\<close> to
  \<open>end()\<close>, advancing with \<open>operator++\<close> (that is, \<open>InOrderSuccessor\<close>), ends and
  visits exactly the in-order sequence of the stored entries: one visit per node, keys
  strictly increasing.
\<close>

theorem iteration_in_key_order:
  assumes "Tree_inv (root' m)"
  shows "iterate m (Map_begin this m) (Map_end this) = Some (entries (root' m)) \<and>
         length (entries (root' m)) = num_nodes (root' m) \<and>
         sorted_wrt (<) (map fst (entries (root' m)))"
proof -
  from assms have "bst (root' m)" by (simp add: Tree_inv_def)
  from sorted_entries[OF this] iterate_all[OF assms, of this] show ?thesis
    by (simp add: length_entries)
qed

theorem iteration_in_key_order_witness:
  "Tree_inv (root' example_map) \<and>
   iterate example_map (Map_begin 10 example_map) (Map_end 10) =
     Some [(1, ''a''), (4, ''d''), (6, []), (7, ''g''), (8, ''h''), (9, ''i'')] \<and>
   num_nodes (root' example_map) = 6"
  using example_tree_inv iteration_in_key_order[OF example_tree_inv, of 10]
  by (simp add: entries_example)

subsection \<open>The size\<close>

text \<open>
  Claim C7, as the spec states it, fails: \<open>erase(iterator)\<close> never checks that the
  iterator belongs to the map. After the calls of \<open>example_ops\<close> on one map,
  \<open>erase(b.find(42))\<close> with the iterator of another map \<open>b\<close> reads the key 42
  through the iterator, finds no such key, removes nothing and decrements \<open>size_\<close>:
  the map has 6 nodes, the loop from \<open>begin()\<close> to \<open>end()\<close> visits 6 entries, and
  \<open>size()\<close> is 5.
\<close>

theorem erase_foreign_iterator_counterexample:
  "run 20 [] Map_ctor other_ops = Some other_map \<and>
   run 10 [] Map_ctor
     (example_ops @
      [EraseAt (Map_find 20 other_map 42) (iterator_deref other_map (Map_find 20 other_map 42))]) =
     Some (example_map\<lparr>size' := 5\<rparr>) \<and>
   Map_size (example_map\<lparr>size' := 5\<rparr>) = 5 \<and>
   num_nodes (root' (example_map\<lparr>size' := 5\<rparr>)) = 6 \<and>
   map_option length
     (iterate (example_map\<lparr>size' := 5\<rparr>) (Map_begin 10 (example_map\<lparr>size' := 5\<rparr>))
        (Map_end 10)) = Some 6"
  unfolding example_ops_def example_map_def other_ops_def other_map_def by code_simp

text \<open>
  Claim C7, amended. In every state that a sequence of public operations produces from
  the empty map, every \<open>erase(iterator)\<close> of the sequence having been given an iterator
  of the map (its end iterator or an iterator to one of its nodes), \<open>size()\<close> is the
  number of nodes reachable from \<open>root_\<close>, and it is the number of entries the loop
  from \<open>begin()\<close> to \<open>end()\<close> visits.
\<close>

theorem size_counts_nodes_for_own_iterators:
  assumes "run this T0 Map_ctor ops = Some m" "in_contract this T0 Map_ctor ops"
  shows "unat (Map_size m) = num_nodes (root' m) \<and>
         map_option length (iterate m (Map_begin this m) (Map_end this)) =
           Some (unat (Map_size m))"
proof -
  from run_inv[OF assms(2,1)] have inv: "Map_inv m" .
  then have t: "Tree_inv (root' m)" and s: "unat (Map_size m) = num_nodes (root' m)"
    by (simp_all add: Map_inv_def Map_size_def)
  from s iterate_all[OF t, of this] show ?thesis
    by (simp add: entries_def num_nodes_length)
qed

theorem size_counts_nodes_for_own_iterators_witness:
  "run 10 [] Map_ctor example_ops = Some example_map \<and>
   in_contract 10 [] Map_ctor example_ops \<and>
   Map_size example_map = 6 \<and> num_nodes (root' example_map) = 6 \<and>
   map_option length (iterate example_map (Map_begin 10 example_map) (Map_end 10)) = Some 6"
proof -
  have "Map_size example_map = 6" by (simp add: Map_size_def example_map_def)
  with run_example in_contract_example
    size_counts_nodes_for_own_iterators[OF run_example in_contract_example]
  show ?thesis by simp
qed

lemma dropWhile_entries:
  "dropWhile (\<lambda>p. fst p < k) (entries t) = map snd (dropWhile (\<lambda>y. fst (snd y) < k) (nodes t))"
  by (simp add: entries_def dropWhile_map comp_def)

lemma Map_lower_bound_ptr:
  assumes "Tree_inv (root' m)"
  shows "Map_lower_bound this m k =
           Some \<lparr>curr' = first_ptr (dropWhile (\<lambda>y. fst (snd y) < k) (nodes (root' m))), map' = this\<rparr>"
proof -
  from assms have b: "bst (root' m)" and d: "distinct (addrs (root' m))"
    by (simp_all add: Tree_inv_def)
  have "nodes (root' m) = [] @ nodes (root' m)" by simp
  from find_if_from[OF b d this, of "Map_begin this m" "Map_end this" "\<lambda>v. \<not> fst v < k"]
  show ?thesis
    by (simp add: Map_lower_bound_def Map_begin_def first_ptr_GetMinEntry Map_end_def iterator_of_def)
qed

lemma lower_bound_reference_ptr:
  assumes "bst (root' m)"
  shows "lower_bound_reference this m k =
           \<lparr>curr' = first_ptr (dropWhile (\<lambda>y. fst (snd y) < k) (nodes (root' m))), map' = this\<rparr>"
proof -
  have "ptr (lower_bound_descent (root' m) k nullptr) =
          first_ptr (dropWhile (\<lambda>y. fst (snd y) < k) (nodes (root' m)))"
    by (simp only: lower_bound_descent_ptr[OF assms] ptr.simps first_ptr_case)
  then show ?thesis by (simp add: lower_bound_reference_def iterator_of_def)
qed

text \<open>
  Claim C9. On a map whose tree satisfies the invariants, \<open>lower_bound(k)\<close>, the linear scan
  \<open>std::find_if\<close> from \<open>begin()\<close> to \<open>end()\<close>, ends and returns the iterator that the
  descent from the root computes; this iterator points to the first entry of the in-order
  sequence whose key is not less than \<open>k\<close>, and is \<open>end()\<close> when there is none.
\<close>

theorem lower_bound_scan_is_descent:
  assumes "Tree_inv (root' m)"
  shows "Map_lower_bound this m k = Some (lower_bound_reference this m k) \<and>
         (case dropWhile (\<lambda>p. fst p < k) (entries (root' m)) of
            [] \<Rightarrow> lower_bound_reference this m k = Map_end this
          | p # ps \<Rightarrow> iterator_deref m (lower_bound_reference this m k) = Some p)"
proof -
  from assms have b: "bst (root' m)" and d: "distinct (addrs (root' m))"
    by (simp_all add: Tree_inv_def)
  let ?dw = "dropWhile (\<lambda>y. fst (snd y) < k) (nodes (root' m))"
  note r = lower_bound_reference_ptr[OF b, of this k]
  have 1: "Map_lower_bound this m k = Some (lower_bound_reference this m k)"
    by (simp add: Map_lower_bound_ptr[OF assms] r)
  have 2: "case dropWhile (\<lambda>p. fst p < k) (entries (root' m)) of
            [] \<Rightarrow> lower_bound_reference this m k = Map_end this
          | p # ps \<Rightarrow> iterator_deref m (lower_bound_reference this m k) = Some p"
  proof (cases ?dw)
    case Nil
    show ?thesis by (simp only: dropWhile_entries r Nil) (simp add: Map_end_def)
  next
    case (Cons y ys)
    obtain a p where y: "y = (a, p)" by (cases y)
    have "nodes (root' m) = takeWhile (\<lambda>y. fst (snd y) < k) (nodes (root' m)) @ (a, p) # ys"
      using takeWhile_dropWhile_id[of "\<lambda>y. fst (snd y) < k" "nodes (root' m)"] Cons y by simp
    from iterator_step(1)[OF b d this, of "lower_bound_reference this m k"] Cons y
    show ?thesis by (simp add: dropWhile_entries r)
  qed
  from 1 2 show ?thesis by (rule conjI)
qed

theorem lower_bound_scan_is_descent_witness:
  "Tree_inv (root' example_map) \<and>
   Map_lower_bound 10 example_map 5 = Some \<lparr>curr' = Some 107, map' = 10\<rparr> \<and>
   lower_bound_reference 10 example_map 5 = \<lparr>curr' = Some 107, map' = 10\<rparr> \<and>
   iterator_deref example_map \<lparr>curr' = Some 107, map' = 10\<rparr> = Some (6, [])"
proof -
  have r: "lower_bound_reference 10 example_map 5 = \<lparr>curr' = Some 107, map' = 10\<rparr>"
    by (simp add: lower_bound_reference_def example_map_def iterator_of_def)
  have e: "dropWhile (\<lambda>p. fst p < 5) (entries (root' example_map)) =
             [(6, []), (7, ''g''), (8, ''h''), (9, ''i'')]"
    by (simp add: entries_example)
  from lower_bound_scan_is_descent[OF example_tree_inv, of 10 5] example_tree_inv
  show ?thesis by (simp add: r e)
qed

subsection \<open>Insertion of a present key\<close>

lemma Map_find_present:
  assumes "bst (root' m)" "distinct (addrs (root' m))" "(a, p) \<in> set (nodes (root' m))"
  shows "Map_find this m (fst p) = \<lparr>curr' = Some a, map' = this\<rparr>"
    and "iterator_deref m (Map_find this m (fst p)) = Some p"
proof -
  from node_at_in_nodes[OF assms] obtain l r h
    where n: "node_at a (root' m) = Entry a p l r h"
      and lk: "lookup (root' m) (fst p) = Entry a p l r h" by blast
  from lk show f: "Map_find this m (fst p) = \<lparr>curr' = Some a, map' = this\<rparr>"
    by (simp add: Map_find_def find_loop_lookup iterator_of_def)
  from n show "iterator_deref m (Map_find this m (fst p)) = Some p"
    by (simp add: f iterator_deref_def)
qed

text \<open>
  Claim C2. On a map whose tree satisfies the invariants and holds the key \<open>k\<close> with value
  \<open>v\<close> in the node at address \<open>a\<close>, \<open>emplace\<close> and \<open>insert\<close> of \<open>(k, v2)\<close>
  return the iterator to that node and \<open>false\<close>; afterwards \<open>find(k)\<close> still yields
  \<open>(k, v)\<close> and \<open>size()\<close> is what it was.
\<close>

theorem emplace_existing_key:
  assumes "Tree_inv (root' m)" "(a, (k, v)) \<in> set (nodes (root' m))"
  shows "fst (Map_emplace this n m (k, v2)) = (\<lparr>curr' = Some a, map' = this\<rparr>, False) \<and>
         fst (Map_insert this n m (k, v2)) = (\<lparr>curr' = Some a, map' = this\<rparr>, False) \<and>
         iterator_deref (snd (Map_emplace this n m (k, v2)))
           (Map_find this (snd (Map_emplace this n m (k, v2))) k) = Some (k, v) \<and>
         Map_size (snd (Map_emplace this n m (k, v2))) = Map_size m"
proof -
  from assms(1) have b: "bst (root' m)" and d: "distinct (addrs (root' m))"
    by (simp_all add: Tree_inv_def)
  from in_nodes_key[OF assms(2)] have "fst (k, v2) \<in> set (keys (root' m))" by simp
  from Map_emplace_present[OF b this, of this n]
  have e: "Map_emplace this n m (k, v2) = ((Map_find this m k, False), m)" by simp
  from Map_find_present[OF b d assms(2), of this] show ?thesis
    by (simp add: e Map_insert_def)
qed

theorem emplace_existing_key_witness:
  "Tree_inv (root' example_map) \<and> (101, (4, ''d'')) \<in> set (nodes (root' example_map)) \<and>
   fst (Map_emplace 10 200 example_map (4, ''new'')) = (\<lparr>curr' = Some 101, map' = 10\<rparr>, False) \<and>
   iterator_deref (snd (Map_emplace 10 200 example_map (4, ''new'')))
     (Map_find 10 (snd (Map_emplace 10 200 example_map (4, ''new''))) 4) = Some (4, ''d'') \<and>
   Map_size (snd (Map_emplace 10 200 example_map (4, ''new''))) = Map_size example_map"
proof -
  have n: "(101, (4, ''d'')) \<in> set (nodes (root' example_map))"
    by (simp add: example_map_def)
  from emplace_existing_key[OF example_tree_inv n, of 10 200 "''new''"] example_tree_inv n
  show ?thesis by simp
qed

text \<open>
  Claim C3, as the spec states it, fails: \<open>emplace\<close> looks the key up first and calls
  \<open>InsertRecursive\<close> only when it is absent, so the value of a present key is not
  overwritten. After \<open>emplace(7, 1)\<close>, the call \<open>emplace(7, 2)\<close> leaves the value 1 stored
  (the spec's own second scenario, with the key 7 for \<open>"b"\<close>).
\<close>

theorem insert_existing_overwrites_counterexample:
  "iterator_deref (snd (Map_emplace 10 101 (snd (Map_emplace 10 100 Map_ctor (7::int, 1::int))) (7, 2)))
     (Map_find 10 (snd (Map_emplace 10 101 (snd (Map_emplace 10 100 Map_ctor (7::int, 1::int))) (7, 2))) 7)
   = Some (7, 1) \<and>
   iterator_deref (snd (Map_emplace 10 101 (snd (Map_emplace 10 100 Map_ctor (7::int, 1::int))) (7, 2)))
     (Map_find 10 (snd (Map_emplace 10 101 (snd (Map_emplace 10 100 Map_ctor (7::int, 1::int))) (7, 2))) 7)
   \<noteq> Some (7, 2)"
  by code_simp

text \<open>
  Claim C3, amended. On a map whose tree satisfies the invariants, \<open>emplace\<close> and \<open>insert\<close> of
  a pair whose key is present leave the whole map as it was: the same nodes, the same
  links, the same pairs (the stored value included) and the same size.
\<close>

theorem insert_existing_leaves_map_unchanged:
  assumes "Tree_inv (root' m)" "k \<in> set (keys (root' m))"
  shows "snd (Map_emplace this n m (k, v2)) = m \<and> snd (Map_insert this n m (k, v2)) = m"
proof -
  from assms(1) have b: "bst (root' m)" by (simp add: Tree_inv_def)
  from assms(2) have "fst (k, v2) \<in> set (keys (root' m))" by simp
  from Map_emplace_present[OF b this, of this n] show ?thesis by (simp add: Map_insert_def)
qed

theorem insert_existing_leaves_map_unchanged_witness:
  "Tree_inv (root' example_map) \<and> 4 \<in> set (keys (root' example_map)) \<and>
   snd (Map_emplace 10 200 example_map (4, ''new'')) = example_map \<and>
   snd (Map_insert 10 200 example_map (4, ''new'')) = example_map"
proof -
  have k: "4 \<in> set (keys (root' example_map))" by (simp add: example_map_def)
  from insert_existing_leaves_map_unchanged[OF example_tree_inv k, of 10 200 "''new''"]
    example_tree_inv k
  show ?thesis by simp
qed

subsection \<open>Erasing by key and by iterator\<close>

lemma erase_nodes_one_child:
  assumes "bst t" "lookup t k = Entry a p l r h" "l = nullptr \<or> r = nullptr"
  shows "erase_nodes t k = filter (\<lambda>x. fst (snd x) \<noteq> k) (nodes t)"
  using assms(1,2)
proof (induction t)
  case nullptr
  then show ?case by simp
next
  case (Entry b q tl tr th)
  from bst_nodes_bounds[OF Entry.prems(1)]
  have lo: "\<forall>x \<in> set (nodes tl). fst (snd x) < fst q" and hi: "\<forall>x \<in> set (nodes tr). fst q < fst (snd x)"
    by blast+
  from Entry.prems(1) have bl: "bst tl" and br: "bst tr" by auto
  consider (lt) "k < fst q" | (gt) "fst q < k" | (eq) "fst q = k" by force
  then show ?case
  proof cases
    case lt
    with hi have "\<forall>x \<in> set (nodes tr). k < fst (snd x)" by auto
    then have "filter (\<lambda>x. fst (snd x) \<noteq> k) (nodes tr) = nodes tr" by (rule filter_keys_gt)
    moreover from lt Entry.prems(2) have "lookup tl k = Entry a p l r h" by simp
    note Entry.IH(1)[OF bl this]
    ultimately show ?thesis using lt by simp
  next
    case gt
    then have nlt: "\<not> k < fst q" by simp
    from gt lo have "\<forall>x \<in> set (nodes tl). fst (snd x) < k" by auto
    then have "filter (\<lambda>x. fst (snd x) \<noteq> k) (nodes tl) = nodes tl" by (rule filter_keys_lt)
    moreover from gt nlt Entry.prems(2) have "lookup tr k = Entry a p l r h" by simp
    note Entry.IH(2)[OF br this]
    ultimately show ?thesis using gt nlt by simp
  next
    case eq
    from lo eq have "filter (\<lambda>x. fst (snd x) \<noteq> k) (nodes tl) = nodes tl"
      by (intro filter_keys_lt) auto
    moreover from hi eq have "filter (\<lambda>x. fst (snd x) \<noteq> k) (nodes tr) = nodes tr"
      by (intro filter_keys_gt) auto
    moreover from eq Entry.prems(2) have "tl = l" "tr = r" by simp_all
    ultimately show ?thesis using eq assms(3) by auto
  qed
qed

lemma erase_nodes_two_children:
  assumes "bst t" "lookup t k = Entry a p l r h" "l \<noteq> nullptr" "r \<noteq> nullptr"
  shows "(a, snd (hd (nodes r))) \<in> set (erase_nodes t k)"
  using assms(1,2)
proof (induction t)
  case nullptr
  then show ?case by simp
next
  case (Entry b q tl tr th)
  from Entry.prems(1) have bl: "bst tl" and br: "bst tr" by auto
  consider (lt) "k < fst q" | (gt) "fst q < k" | (eq) "fst q = k" by force
  then show ?case
  proof cases
    case lt
    with Entry.prems(2) have "lookup tl k = Entry a p l r h" by simp
    from Entry.IH(1)[OF bl this] lt show ?thesis by simp
  next
    case gt
    then have nlt: "\<not> k < fst q" by simp
    with gt Entry.prems(2) have "lookup tr k = Entry a p l r h" by simp
    from Entry.IH(2)[OF br this] gt nlt show ?thesis by simp
  next
    case eq
    with Entry.prems(2) have "b = a" "tl = l" "tr = r" by simp_all
    with eq assms(3,4) show ?thesis by simp
  qed
qed

lemma filter_key_mid:
  fixes xs :: "(address \<times> 'k::linorder \<times> 'v) list"
  assumes "sorted_wrt (<) (map (\<lambda>x. fst (snd x)) (xs @ y # ys))"
  shows "filter (\<lambda>x. fst (snd x) \<noteq> fst (snd y)) (xs @ y # ys) = xs @ ys"
proof -
  from assms have lo: "\<forall>x \<in> set xs. fst (snd x) < fst (snd y)"
    and hi: "\<forall>x \<in> set ys. fst (snd y) < fst (snd x)"
    by (auto simp: sorted_wrt_append)
  from lo have "filter (\<lambda>x. fst (snd x) \<noteq> fst (snd y)) xs = xs" by (rule filter_keys_lt)
  moreover from hi have "filter (\<lambda>x. fst (snd x) \<noteq> fst (snd y)) ys = ys" by (rule filter_keys_gt)
  ultimately show ?thesis by simp
qed

lemma iterator_deref_in_nodes:
  assumes "bst (root' m)" "distinct (addrs (root' m))" "(a, p) \<in> set (nodes (root' m))"
    and "curr' it = Some a"
  shows "iterator_deref m it = Some p"
proof -
  from node_at_in_nodes[OF assms(1-3)] obtain l r h where "node_at a (root' m) = Entry a p l r h"
    by blast
  with assms(4) show ?thesis by (simp add: iterator_deref_def)
qed

text \<open>What \<open>erase(iterator)\<close> does at a node of the map.\<close>

lemma Map_erase_node:
  assumes "Tree_inv (root' m)" "nodes (root' m) = xs @ (a, p) # ys" "curr' it = Some a"
  shows "\<exists>it2 m2. Map_erase this m it foreign = Some (it2, m2) \<and> Tree_inv (root' m2) \<and>
           size' m2 = size' m - 1 \<and>
           entries (root' m2) = map snd xs @ map snd ys \<and>
           entries (root' m2) = filter (\<lambda>q. fst q \<noteq> fst p) (entries (root' m)) \<and>
           (case ys of [] \<Rightarrow> it2 = Map_end this
            | y # zs \<Rightarrow> iterator_deref m2 it2 = Some (snd y))"
proof -
  let ?rt = "root' m"
  let ?k = "fst p"
  from assms(1) have b: "bst ?rt" and av: "avl ?rt" and di: "distinct (addrs ?rt)"
    by (simp_all add: Tree_inv_def)
  have mem: "(a, p) \<in> set (nodes ?rt)" by (simp add: assms(2))
  from node_at_in_nodes[OF b di mem] obtain l r h
    where na: "node_at a ?rt = Entry a p l r h" and lk: "lookup ?rt ?k = Entry a p l r h"
    by blast
  let ?rr = "RemoveRecursive this ?rt ?rt ?k"
  let ?m2 = "\<lparr>root' = snd ?rr, size' = size' m - 1\<rparr>"
  have e: "Map_erase this m it foreign = Some (fst ?rr, ?m2)"
    by (rule Map_erase_at[OF assms(3) na])
  from Map_erase_tree_inv[OF assms(1) e] have inv2: "Tree_inv (root' ?m2)" .
  then have b2: "bst (snd ?rr)" and d2: "distinct (addrs (snd ?rr))"
    by (simp_all add: Tree_inv_def)
  have s2: "size' ?m2 = size' m - 1" by simp
  have srt: "sorted_wrt (<) (map (\<lambda>x. fst (snd x)) (xs @ (a, p) # ys))"
    using b by (simp add: bst_iff_sorted keys_def assms(2))
  from RemoveRecursive_avl[OF av b di, where this = this and rt = ?rt and k = ?k]
  have n2: "nodes (snd ?rr) = erase_nodes ?rt ?k" by simp
  have "entries (snd ?rr) = map snd (filter (\<lambda>x. fst (snd x) \<noteq> ?k) (nodes ?rt))"
    using erase_nodes_entries[OF b, of ?k] by (simp add: entries_def n2 filter_map comp_def)
  also have "\<dots> = map snd (xs @ ys)"
    using filter_key_mid[OF srt] by (simp add: assms(2))
  finally have en: "entries (root' ?m2) = map snd xs @ map snd ys" by simp
  have ef: "entries (root' ?m2) = filter (\<lambda>q. fst q \<noteq> ?k) (entries ?rt)"
    using erase_nodes_entries[OF b, of ?k] by (simp add: entries_def n2)
  from nodes_above_mid[OF srt] have ab: "nodes_above ?k (nodes ?rt) = ys" by (simp add: assms(2))
  have it: "case ys of [] \<Rightarrow> fst ?rr = Map_end this
            | y # zs \<Rightarrow> iterator_deref ?m2 (fst ?rr) = Some (snd y)"
  proof (cases "l \<noteq> nullptr \<and> r \<noteq> nullptr")
    case True
    then have ln: "l \<noteq> nullptr" and rn: "r \<noteq> nullptr" by auto
    from nodes_above_lookup[OF b lk] ab obtain rest where ys: "ys = nodes r @ rest" by auto
    from rn obtain y zs where nr: "nodes r = y # zs" by (cases "nodes r") auto
    from erase_nodes_two_children[OF b lk ln rn] nr
    have "(a, snd y) \<in> set (nodes (root' ?m2))" by (simp add: n2)
    moreover have "curr' (fst ?rr) = Some a" using True by (simp add: RemoveRecursive_iterator lk)
    ultimately have "iterator_deref ?m2 (fst ?rr) = Some (snd y)"
      using b2 d2 by (intro iterator_deref_in_nodes) simp_all
    then show ?thesis by (simp add: ys nr)
  next
    case False
    then have one: "l = nullptr \<or> r = nullptr" by auto
    from False have f: "fst ?rr = iterator_of this (InOrderSuccessor ?rt (Entry a p l r h))"
      by (auto simp: RemoveRecursive_iterator lk)
    from InOrderSuccessor_ptr[OF b lk] ab
    have pt: "ptr (InOrderSuccessor ?rt (Entry a p l r h)) = first_ptr ys"
      by (simp add: first_ptr_case)
    show ?thesis
    proof (cases ys)
      case Nil
      with pt f show ?thesis by (simp add: iterator_of_def Map_end_def)
    next
      case (Cons y zs)
      from srt Cons have "fst (snd y) \<noteq> ?k" by (auto simp: sorted_wrt_append)
      with Cons have "y \<in> set (filter (\<lambda>x. fst (snd x) \<noteq> ?k) (nodes ?rt))"
        by (simp add: assms(2))
      with erase_nodes_one_child[OF b lk one] have "(fst y, snd y) \<in> set (nodes (root' ?m2))"
        by (simp add: n2)
      moreover from pt f Cons have "curr' (fst ?rr) = Some (fst y)" by simp
      ultimately have "iterator_deref ?m2 (fst ?rr) = Some (snd y)"
        using b2 d2 by (intro iterator_deref_in_nodes) simp_all
      with Cons show ?thesis by simp
    qed
  qed
  from e inv2 s2 en ef it show ?thesis by blast
qed

lemma nodes_example:
  "nodes (root' example_map) =
     [(103, (1, ''a'')), (101, (4, ''d'')), (107, (6, []))] @ (100, (7, ''g'')) #
     [(102, (8, ''h'')), (106, (9, ''i''))]"
  by (simp add: example_map_def)





text \<open>
  Claim C5. On a map whose tree satisfies the invariants, \<open>erase(it)\<close> for an iterator
  that points to the node \<open>a\<close> of the in-order sequence \<open>xs @ (a, p) # ys\<close> removes the
  entry \<open>p\<close> and nothing else, and returns an iterator to the entry that followed
  \<open>p\<close> in the sequence before the removal, or \<open>end()\<close> when \<open>p\<close> was the last
  entry. \<open>erase\<close> of an end iterator removes nothing and returns that iterator.
\<close>

theorem erase_at_iterator:
  assumes "Tree_inv (root' m)" "nodes (root' m) = xs @ (a, p) # ys" "curr' it = Some a"
  shows "(\<exists>it2 m2. Map_erase this m it foreign = Some (it2, m2) \<and>
            entries (root' m2) = map snd xs @ map snd ys \<and>
            (case ys of [] \<Rightarrow> it2 = Map_end this
             | y # zs \<Rightarrow> iterator_deref m2 it2 = Some (snd y))) \<and>
         Map_erase this m (Map_end that) foreign = Some (Map_end that, m)"
proof -
  from Map_erase_node[OF assms, of this foreign]
  have "\<exists>it2 m2. Map_erase this m it foreign = Some (it2, m2) \<and>
            entries (root' m2) = map snd xs @ map snd ys \<and>
            (case ys of [] \<Rightarrow> it2 = Map_end this
             | y # zs \<Rightarrow> iterator_deref m2 it2 = Some (snd y))"
    by blast
  moreover have "Map_erase this m (Map_end that) foreign = Some (Map_end that, m)"
    by (simp add: Map_erase_end iterator_eq_def)
  ultimately show ?thesis by (rule conjI)
qed

theorem erase_at_iterator_witness:
  "Tree_inv (root' example_map) \<and>
   nodes (root' example_map) =
     [(103, (1, ''a'')), (101, (4, ''d'')), (107, (6, []))] @ (100, (7, ''g'')) #
     [(102, (8, ''h'')), (106, (9, ''i''))] \<and>
   (\<exists>it2 m2. Map_erase 10 example_map \<lparr>curr' = Some 100, map' = 10\<rparr> None = Some (it2, m2) \<and>
       entries (root' m2) = [(1, ''a''), (4, ''d''), (6, []), (8, ''h''), (9, ''i'')] \<and>
       iterator_deref m2 it2 = Some (8, ''h'')) \<and>
   Map_erase 10 example_map (Map_end 10) None = Some (Map_end 10, example_map)"
  using example_tree_inv nodes_example
    erase_at_iterator[OF example_tree_inv nodes_example,
      of "\<lparr>curr' = Some 100, map' = 10\<rparr>" 10 None 10]
  by simp

subsection \<open>Iterator equality\<close>

text \<open>
  The iterators \<open>begin\<close>, \<open>end\<close> and \<open>find\<close> return are iterators of the map.
\<close>

lemma Map_end_own: "own_iterator m (Map_end this)"
  by (simp add: own_iterator_def)

lemma Map_begin_own: "own_iterator m (Map_begin this m)"
proof (cases "root' m = nullptr")
  case True
  then show ?thesis by (simp add: own_iterator_def Map_begin_def)
next
  case False
  from GetMinEntry_hd[OF False] obtain a p l r h
    where g: "GetMinEntry (root' m) = Entry a p l r h" and "hd (nodes (root' m)) = (a, p)"
    by (cases "GetMinEntry (root' m)") (auto simp: prod_eq_iff)
  with False have "(a, p) \<in> set (nodes (root' m))"
    using hd_in_set[of "nodes (root' m)"] by (simp add: nodes_Nil_iff)
  then have "a \<in> set (addrs (root' m))" by (force simp: addrs_def)
  with g show ?thesis by (simp add: own_iterator_def Map_begin_def)
qed

text \<open>
  Claim C8, as the spec states it, fails: \<open>operator==\<close> compares \<open>curr_\<close> and not
  \<open>map_\<close>, and \<open>end()\<close> has a null \<open>curr_\<close> in every map, so the end iterators of
  two different maps compare equal.
\<close>

theorem end_iterators_counterexample:
  "map' (Map_end 10) \<noteq> map' (Map_end 20) \<and> iterator_eq (Map_end 10) (Map_end 20)"
  by (simp add: Map_end_def iterator_eq_def)

text \<open>
  Claim C8, amended. Iterator equality is identity of the node pointer \<open>curr_\<close>, for
  every two iterators; the map is not compared. For two maps that own no node in common,
  an iterator of the one and an iterator of the other compare equal exactly when both
  are end iterators: two iterators to nodes never compare equal, an end iterator and an
  iterator to a node never compare equal, and two end iterators always compare equal.
\<close>

theorem iterator_equality_is_node_identity:
  "iterator_eq i j = (curr' i = curr' j) \<and> iterator_ne i j = (curr' i \<noteq> curr' j) \<and>
   (set (addrs (root' m1)) \<inter> set (addrs (root' m2)) = {} \<and>
    own_iterator m1 i \<and> own_iterator m2 j \<longrightarrow>
      iterator_eq i j =
        (iterator_eq i (Map_end this1) \<and> iterator_eq j (Map_end this2)))"
proof (intro conjI impI)
  show "iterator_eq i j = (curr' i = curr' j)" by (simp add: iterator_eq_def)
  show "iterator_ne i j = (curr' i \<noteq> curr' j)" by (simp add: iterator_ne_def iterator_eq_def)
  assume "set (addrs (root' m1)) \<inter> set (addrs (root' m2)) = {} \<and>
    own_iterator m1 i \<and> own_iterator m2 j"
  then show "iterator_eq i j = (iterator_eq i (Map_end this1) \<and> iterator_eq j (Map_end this2))"
    by (cases "curr' i"; cases "curr' j") (auto simp: iterator_eq_def own_iterator_def)
qed

theorem iterator_equality_is_node_identity_witness:
  "set (addrs (root' example_map)) \<inter> set (addrs (root' other_map)) = {} \<and>
   own_iterator example_map (Map_find 10 example_map 4) \<and>
   own_iterator other_map (Map_find 20 other_map 42) \<and>
   own_iterator other_map (Map_end 20) \<and>
   \<not> iterator_eq (Map_find 10 example_map 4) (Map_end 10) \<and>
   \<not> iterator_eq (Map_find 20 other_map 42) (Map_end 20) \<and>
   \<not> iterator_eq (Map_find 10 example_map 4) (Map_find 20 other_map 42) \<and>
   \<not> iterator_eq (Map_find 10 example_map 4) (Map_end 20) \<and>
   iterator_eq (Map_end 10) (Map_end 20)"
proof -
  have d: "set (addrs (root' example_map)) \<inter> set (addrs (root' other_map)) = {}"
    unfolding example_map_def other_map_def by code_simp
  have o1: "own_iterator example_map (Map_find 10 example_map 4)"
    unfolding example_map_def by code_simp
  have o2: "own_iterator other_map (Map_find 20 other_map 42)"
    unfolding other_map_def by code_simp
  have o3: "own_iterator other_map (Map_end 20)" by (rule Map_end_own)
  have o4: "own_iterator example_map (Map_end 10)" by (rule Map_end_own)
  have n1: "\<not> iterator_eq (Map_find 10 example_map 4) (Map_end 10)"
    unfolding example_map_def by code_simp
  have n2: "\<not> iterator_eq (Map_find 20 other_map 42) (Map_end 20)"
    unfolding other_map_def by code_simp
  have r1: "\<not> iterator_eq (Map_find 10 example_map 4) (Map_find 20 other_map 42)"
    using iterator_equality_is_node_identity[of "Map_find 10 example_map 4"
      "Map_find 20 other_map 42" example_map other_map 10 20] d o1 o2 n1
    by blast
  have r2: "\<not> iterator_eq (Map_find 10 example_map 4) (Map_end 20)"
    using iterator_equality_is_node_identity[of "Map_find 10 example_map 4"
      "Map_end 20" example_map other_map 10 20] d o1 o3 n1
    by blast
  have r3: "iterator_eq (Map_end 10) (Map_end 20)"
    using iterator_equality_is_node_identity[of "Map_end 10"
      "Map_end 20" example_map other_map 10 20] d o4 o3
    by (simp add: iterator_eq_def)
  from d o1 o2 o3 n1 n2 r1 r2 r3 show ?thesis by simp
qed

subsection \<open>Emptiness, size and moving\<close>

lemma num_nodes_0_iff: "num_nodes t = 0 \<longleftrightarrow> t = nullptr"
  by (cases t) auto

text \<open>
  The guard \<open>this != &other\<close> of the move assignment skips the body when an object is
  assigned to itself, which then keeps its root and its size.
\<close>

lemma Map_move_assign_self: "Map_move_assign this m this m = Some (m, m)"
  by (simp add: Map_move_assign_def)

text \<open>
  Claim C10, as stated, fails: \<open>erase(iterator)\<close> never checks that the iterator belongs
  to the map. On an empty map, \<open>erase(b.find(42))\<close> with the iterator of another map
  \<open>b\<close> removes nothing and decrements \<open>size_\<close>, which wraps: \<open>empty()\<close> holds and
  \<open>size()\<close> is \<open>2 ^ 64 - 1\<close>.
\<close>

theorem erase_foreign_iterator_on_empty_counterexample:
  "run 20 [] Map_ctor other_ops = Some other_map \<and>
   run 10 [] Map_ctor
     [EraseAt (Map_find 20 other_map 42) (iterator_deref other_map (Map_find 20 other_map 42))] =
     Some \<lparr>root' = nullptr, size' = 18446744073709551615\<rparr> \<and>
   Map_empty (\<lparr>root' = nullptr, size' = 18446744073709551615\<rparr> :: (int, string) Map) \<and>
   Map_size (\<lparr>root' = nullptr, size' = 18446744073709551615\<rparr> :: (int, string) Map) \<noteq> 0"
  unfolding other_ops_def other_map_def by code_simp

text \<open>
  Claim C10, amended. In every state that a sequence of public operations produces from
  the empty map, every \<open>erase(iterator)\<close> of the sequence having been given an iterator
  of the map (its end iterator or an iterator to one of its nodes), \<open>empty()\<close> holds
  exactly when \<open>size()\<close> is 0 (and \<open>empty()\<close> is \<open>root_ == nullptr\<close>). Move
  construction hands the state of the source to the new object and leaves the source
  with a null root and size 0; move assignment from a different object ends and does the
  same; the states of source and destination afterwards satisfy the equivalence.
\<close>

theorem empty_iff_size_zero:
  fixes m other :: "('k::linorder, 'v) Map"
  assumes "run this T0 Map_ctor ops = Some m" "in_contract this T0 Map_ctor ops"
    and "run that T1 Map_ctor ops2 = Some other" "in_contract that T1 Map_ctor ops2"
  shows "(Map_empty m \<longleftrightarrow> Map_size m = 0) \<and> (Map_empty m \<longleftrightarrow> root' m = nullptr) \<and>
         (Map_empty other \<longleftrightarrow> Map_size other = 0) \<and>
         Map_move_ctor other = (other, \<lparr>root' = nullptr, size' = 0\<rparr>) \<and>
         (this \<noteq> that \<longrightarrow>
            Map_move_assign this m that other = Some (other, \<lparr>root' = nullptr, size' = 0\<rparr>)) \<and>
         (Map_empty (\<lparr>root' = nullptr, size' = 0\<rparr> :: ('k, 'v) Map) \<longleftrightarrow>
            Map_size (\<lparr>root' = nullptr, size' = 0\<rparr> :: ('k, 'v) Map) = 0)"
proof -
  from run_inv[OF assms(2,1)] have i1: "Map_inv m" .
  from run_inv[OF assms(4,3)] have i2: "Map_inv other" .
  have z: "Map_inv x \<Longrightarrow> Map_empty x \<longleftrightarrow> Map_size x = 0" for x :: "('k, 'v) Map"
  proof -
    assume "Map_inv x"
    then have "unat (size' x) = num_nodes (root' x)" by (simp add: Map_inv_def)
    then have "size' x = 0 \<longleftrightarrow> num_nodes (root' x) = 0" by (simp add: unat_eq_zero[symmetric])
    then show ?thesis by (simp add: Map_empty_def Map_size_def num_nodes_0_iff)
  qed
  from i1 have t: "Tree_inv (root' m)" by (simp add: Map_inv_def)
  have mc: "Map_move_ctor other = (other, \<lparr>root' = nullptr, size' = 0\<rparr>)"
    by (simp add: Map_move_ctor_def)
  have ma: "this \<noteq> that \<longrightarrow>
            Map_move_assign this m that other = Some (other, \<lparr>root' = nullptr, size' = 0\<rparr>)"
    by (simp add: Map_move_assign_def Map_clear_total[OF t])
  from z[OF i1] z[OF i2] mc ma show ?thesis
    by (simp add: Map_empty_def Map_size_def)
qed

theorem empty_iff_size_zero_witness:
  "run 10 [] Map_ctor example_ops = Some example_map \<and>
   in_contract 10 [] Map_ctor example_ops \<and>
   run 20 [] Map_ctor other_ops = Some other_map \<and>
   in_contract 20 [] Map_ctor other_ops \<and>
   set (addrs (root' example_map)) \<inter> set (addrs (root' other_map)) = {} \<and>
   \<not> Map_empty example_map \<and> Map_size example_map = 6 \<and>
   \<not> Map_empty other_map \<and> Map_size other_map = 2 \<and>
   Map_move_ctor other_map = (other_map, \<lparr>root' = nullptr, size' = 0\<rparr>) \<and>
   Map_move_assign 10 example_map 20 other_map =
     Some (other_map, \<lparr>root' = nullptr, size' = 0\<rparr>)"
proof -
  have d: "set (addrs (root' example_map)) \<inter> set (addrs (root' other_map)) = {}"
    unfolding example_map_def other_map_def by code_simp
  have s: "Map_size example_map = 6" "Map_size other_map = 2"
    by (simp_all add: Map_size_def example_map_def other_map_def)
  from empty_iff_size_zero[OF run_example in_contract_example run_other in_contract_other]
    run_example in_contract_example run_other in_contract_other d s
  show ?thesis by auto
qed

end
